theory Spec2Isabelle
  imports Complex_Main "HOL-Library.Product_Lexorder" "HOL-Library.AList" "HOL-Library.Log_Nat"
begin

section \<open>Events\<close>

text \<open>
  The dashboard works on a flat array of event objects
  \<^verbatim>\<open>{ date, activityType, status, user, device }\<close>.  The \<^verbatim>\<open>date\<close> field is an ISO calendar
  date string \<^verbatim>\<open>yyyy-MM-dd\<close>; it is kept here as the triple (year, month, day) of the numbers
  that the string spells.  For the zero-padded fixed-width strings the JavaScript string order used by
  \<^verbatim>\<open>Array.prototype.sort()\<close> is the lexicographic order of the triples, and string equality is
  equality of the triples.  A triple need not name a day of the calendar (\<^verbatim>\<open>2024-02-30\<close>).
\<close>

datatype status = Success | Warning | Fail

datatype granularity = Daily | Weekly | Monthly

type_synonym isodate = "int \<times> int \<times> int"

record event =
  date :: isodate
  activityType :: string
  status :: status
  user :: string
  device :: string

section \<open>JavaScript numbers, arrays and sets\<close>

text \<open>
  Counts are non-negative integers; as lengths of arrays they stay below \<open>2\<^sup>3\<^sup>2\<close>, and they and their
  differences are doubles without error.  A JavaScript number is the rational it denotes, or one
  of the three values a division by zero produces.
\<close>

datatype jsnum = Num rat | PosInf | NegInf | NaN

text \<open>
  The value of an arithmetic operation is the exact result rounded to the nearest double
  (IEEE 754 binary64: a significand of 53 bits, a tie going to the even significand).
  \<open>exponent2 x\<close> is the binary exponent of a positive \<open>x\<close>, \<open>2\<^sup>e \<le> x < 2\<^sup>e\<^sup>+\<^sup>1\<close>, and the doubles of
  that binade are the multiples of \<open>2\<^sup>e\<^sup>-\<^sup>5\<^sup>2\<close>.  The exponent is not bounded here: with counts below
  \<open>2\<^sup>3\<^sup>2\<close> a quotient of counts lies between \<open>2\<^sup>-\<^sup>3\<^sup>2\<close> and \<open>2\<^sup>3\<^sup>2\<close> and a percentage below \<open>2\<^sup>3\<^sup>9\<close>,
  far from the subnormal numbers and from overflow.
\<close>

definition pow2 :: "int \<Rightarrow> rat" where
  "pow2 k = (if 0 \<le> k then 2 ^ nat k else 1 / 2 ^ nat (- k))"

definition exponent2 :: "rat \<Rightarrow> int" where
  "exponent2 x =
     (let (p, q) = quotient_of x;
          k = bitlen p - bitlen q
      in if pow2 k \<le> x then k else k - 1)"

definition roundTiesToEven :: "rat \<Rightarrow> int" where
  "roundTiesToEven q =
     (let n = \<lfloor>q\<rfloor>;
          r = q - of_int n
      in if r < 1 / 2 then n else if 1 / 2 < r then n + 1 else if even n then n else n + 1)"

definition binary64 :: "rat \<Rightarrow> rat" where
  "binary64 x =
     (if x = 0 then 0
      else let ulp = pow2 (exponent2 \<bar>x\<bar> - 52)
           in sgn x * of_int (roundTiesToEven (\<bar>x\<bar> / ulp)) * ulp)"

fun js_double :: "jsnum \<Rightarrow> jsnum" where
  "js_double (Num x) = Num (binary64 x)"
| "js_double v = v"

text \<open>The exact quotient and the exact product, before the rounding to a double.\<close>

definition js_div :: "rat \<Rightarrow> rat \<Rightarrow> jsnum" where
  "js_div a b =
     (if b \<noteq> 0 then Num (a / b)
      else if 0 < a then PosInf else if a < 0 then NegInf else NaN)"

fun js_times :: "jsnum \<Rightarrow> rat \<Rightarrow> jsnum" where
  "js_times (Num x) k = Num (x * k)"
| "js_times PosInf k = (if 0 < k then PosInf else if k < 0 then NegInf else NaN)"
| "js_times NegInf k = (if 0 < k then NegInf else if k < 0 then PosInf else NaN)"
| "js_times NaN k = NaN"

text \<open>\<^verbatim>\<open>Math.round\<close> of a double: the nearest integer, a tie going up.\<close>

fun Math_round :: "jsnum \<Rightarrow> jsnum" where
  "Math_round (Num x) = Num (of_int \<lfloor>x + 1 / 2\<rfloor>)"
| "Math_round v = v"

fun js_gt0 :: "jsnum \<Rightarrow> bool" where
  "js_gt0 (Num x) = (0 < x)"
| "js_gt0 PosInf = True"
| "js_gt0 v = False"

fun js_lt0 :: "jsnum \<Rightarrow> bool" where
  "js_lt0 (Num x) = (x < 0)"
| "js_lt0 NegInf = True"
| "js_lt0 v = False"

text \<open>
  \<^verbatim>\<open>((a - b) / c) * 100\<close> on counts: the quotient is rounded to a double, and so is its product
  with 100.  The two roundings decide the integer that \<^verbatim>\<open>Math.round\<close> returns: for the counts 63
  after 40 the double is just below 57.5.
\<close>

definition percentChange :: "nat \<Rightarrow> nat \<Rightarrow> nat \<Rightarrow> jsnum" where
  "percentChange a b c =
     js_double (js_times (js_double (js_div (of_nat a - of_nat b) (of_nat c))) 100)"

text \<open>\<^verbatim>\<open>Math.max(...xs, d)\<close> on counts.\<close>

definition Math_max :: "nat list \<Rightarrow> nat \<Rightarrow> nat" where
  "Math_max xs d = fold max (xs @ [d]) 0"

text \<open>\<^verbatim>\<open>Array.from(new Set(xs))\<close>: the distinct elements in the order of their first occurrence.\<close>

definition uniq :: "'a list \<Rightarrow> 'a list" where
  "uniq xs = rev (remdups (rev xs))"

text \<open>\<^verbatim>\<open>xs[i]\<close>: \<^verbatim>\<open>undefined\<close> outside the array.\<close>

definition js_nth :: "'a list \<Rightarrow> int \<Rightarrow> 'a option" where
  "js_nth xs i = (if 0 \<le> i \<and> i < int (length xs) then Some (xs ! nat i) else None)"

section \<open>The calendar functions of date-fns\<close>

text \<open>
  A \<^verbatim>\<open>Date\<close> made from a date-only string is local midnight of that day; it is kept as the
  number of days since 1970-01-01, and \<open>None\<close> is the \<^verbatim>\<open>Invalid Date\<close>.  The functions follow
  date-fns 2.x, where \<^verbatim>\<open>parseISO\<close> of a non-string is the Invalid Date and
  \<^verbatim>\<open>eachWeekOfInterval\<close> throws a \<^verbatim>\<open>RangeError\<close> when an end of the interval is invalid.  (From 3.0
  on \<^verbatim>\<open>parseISO(undefined)\<close> itself throws, and an invalid end gives no weeks.)
\<close>

text \<open>
  The exceptions: \<^verbatim>\<open>RangeError('Invalid interval')\<close>, \<^verbatim>\<open>RangeError('Invalid time value')\<close> and
  the \<^verbatim>\<open>TypeError\<close> of reading a property of \<^verbatim>\<open>undefined\<close>.
\<close>

datatype error = InvalidInterval | InvalidTimeValue | TypeError

definition isLeapYear :: "int \<Rightarrow> bool" where
  "isLeapYear y = (y mod 400 = 0 \<or> (y mod 4 = 0 \<and> y mod 100 \<noteq> 0))"

definition daysInMonth :: "int \<Rightarrow> int \<Rightarrow> int" where
  "daysInMonth y m =
     (if m = 2 then (if isLeapYear y then 29 else 28)
      else if m = 4 \<or> m = 6 \<or> m = 9 \<or> m = 11 then 30 else 31)"

definition valid_date :: "isodate \<Rightarrow> bool" where
  "valid_date ymd =
     (case ymd of (y, m, d) \<Rightarrow>
        0 \<le> y \<and> y \<le> 9999 \<and> 1 \<le> m \<and> m \<le> 12 \<and> 1 \<le> d \<and> d \<le> daysInMonth y m)"

definition days_before_year :: "int \<Rightarrow> int" where
  "days_before_year y = 365 * y + (y + 3) div 4 - (y + 99) div 100 + (y + 399) div 400"

definition days_before_month :: "int \<Rightarrow> int \<Rightarrow> int" where
  "days_before_month y m = sum_list (map (daysInMonth y) [1..m - 1])"

definition day_number :: "isodate \<Rightarrow> int" where
  "day_number ymd =
     (case ymd of (y, m, d) \<Rightarrow>
        days_before_year y + days_before_month y m + d - 1 - 719528)"

text \<open>\<^verbatim>\<open>parseISO(s)\<close>; \<^verbatim>\<open>parseISO(undefined)\<close> is the Invalid Date.\<close>

definition parseISO :: "isodate option \<Rightarrow> int option" where
  "parseISO s =
     (case s of None \<Rightarrow> None
      | Some ymd \<Rightarrow> if valid_date ymd then Some (day_number ymd) else None)"

text \<open>\<^verbatim>\<open>getDay\<close>: 0 is Sunday; 1970-01-01 was a Thursday.\<close>

definition getDay :: "int \<Rightarrow> int" where
  "getDay t = (t + 4) mod 7"

text \<open>
  \<^verbatim>\<open>startOfWeek\<close> is the Sunday on or before the day.  \<^verbatim>\<open>endOfWeek\<close> is the last millisecond
  of the following Saturday; a midnight is at or before it exactly when its day is at or before
  that Saturday, which is the day kept here.
\<close>

definition startOfWeek :: "int \<Rightarrow> int" where
  "startOfWeek t = t - getDay t"

definition endOfWeek :: "int \<Rightarrow> int" where
  "endOfWeek t = startOfWeek t + 6"

function week_loop :: "int \<Rightarrow> int \<Rightarrow> int list" where
  "week_loop currentWeek endTime =
     (if currentWeek \<le> endTime then currentWeek # week_loop (currentWeek + 7) endTime else [])"
  by pat_completeness auto
termination
  by (relation "measure (\<lambda>(c, e). nat (e + 1 - c))") auto

declare week_loop.simps [simp del]

definition eachWeekOfInterval :: "int option \<Rightarrow> int option \<Rightarrow> error + int list" where
  "eachWeekOfInterval startDate endDate =
     (case (startDate, endDate) of
        (Some s, Some e) \<Rightarrow>
          if s \<le> e then Inr (week_loop (startOfWeek s) (startOfWeek e)) else Inl InvalidInterval
      | _ \<Rightarrow> Inl InvalidInterval)"

text \<open>
  The token \<^verbatim>\<open>yyyy\<close> prints the year of the era: the year 0 of the proleptic calendar is 1 BC
  and prints as \<^verbatim>\<open>0001\<close>.
\<close>

definition format_year :: "int \<Rightarrow> int" where
  "format_year y = (if 0 < y then y else 1 - y)"

text \<open>\<^verbatim>\<open>format(d, 'yyyy-MM-dd')\<close> of a valid \<^verbatim>\<open>Date\<close>: the civil date of a day number.\<close>

definition format_ymd :: "int \<Rightarrow> isodate" where
  "format_ymd t =
     (let z = t + 719468;
          era = z div 146097;
          doe = z - era * 146097;
          yoe = (doe - doe div 1460 + doe div 36524 - doe div 146096) div 365;
          doy = doe - (365 * yoe + yoe div 4 - yoe div 100);
          mp = (5 * doy + 2) div 153;
          d = doy - (153 * mp + 2) div 5 + 1;
          m = (if mp < 10 then mp + 3 else mp - 9);
          y = yoe + era * 400 + (if m \<le> 2 then 1 else 0)
      in (format_year y, m, d))"

text \<open>\<^verbatim>\<open>format(parseISO(s), 'yyyy-MM')\<close>; \<^verbatim>\<open>format\<close> throws on the Invalid Date.\<close>

definition month_key :: "isodate \<Rightarrow> int \<times> int" where
  "month_key ymd = (format_year (fst ymd), fst (snd ymd))"

definition format_ym :: "isodate \<Rightarrow> error + int \<times> int" where
  "format_ym ymd = (if valid_date ymd then Inr (month_key ymd) else Inl InvalidTimeValue)"

text \<open>An array of computations of which the first that throws ends the whole.\<close>

fun sequence :: "(error + 'a) list \<Rightarrow> error + 'a list" where
  "sequence [] = Inr []"
| "sequence (x # xs) =
     (case x of Inl e \<Rightarrow> Inl e
      | Inr v \<Rightarrow> (case sequence xs of Inl e \<Rightarrow> Inl e | Inr vs \<Rightarrow> Inr (v # vs)))"

section \<open>The bar graph: \<^verbatim>\<open>BarGraph.processedData\<close>\<close>

text \<open>
  A period key is a day or week-start string \<^verbatim>\<open>yyyy-MM-dd\<close> or a month string \<^verbatim>\<open>yyyy-MM\<close>.
  The display text \<^verbatim>\<open>periodLabel\<close> is left out of the records; where computing it can throw,
  the throw is kept.
\<close>

text \<open>\<^verbatim>\<open>Array.from(new Set(data.map(d => d.date))).sort()\<close>\<close>

definition dates_of :: "event list \<Rightarrow> isodate list" where
  "dates_of data = sort (uniq (map date data))"

datatype period = YMD isodate | YM "int \<times> int"

datatype direction = Up | Down | Stable

record tally =
  period :: period
  total :: nat
  success :: nat
  warning :: nat
  fail :: nat

record bucket = tally +
  trend :: jsnum
  trendDirection :: direction

definition emptyTally :: "period \<Rightarrow> tally" where
  "emptyTally p = \<lparr>period = p, total = 0, success = 0, warning = 0, fail = 0\<rparr>"

text \<open>\<^verbatim>\<open>t.total++; t[item.status]++\<close>\<close>

definition countStatus :: "status \<Rightarrow> tally \<Rightarrow> tally" where
  "countStatus s t =
     (case s of
        Success \<Rightarrow> t\<lparr>total := total t + 1, success := success t + 1\<rparr>
      | Warning \<Rightarrow> t\<lparr>total := total t + 1, warning := warning t + 1\<rparr>
      | Fail \<Rightarrow> t\<lparr>total := total t + 1, fail := fail t + 1\<rparr>)"

text \<open>\<^verbatim>\<open>evs.forEach(event => { t.total++; t[event.status]++ })\<close> on a fresh tally.\<close>

definition tallyOf :: "period \<Rightarrow> event list \<Rightarrow> tally" where
  "tallyOf p evs = fold (\<lambda>event. countStatus (status event)) evs (emptyTally p)"

text \<open>
  \<^verbatim>\<open>{ ...current, trend: Math.round(trend), trendDirection: trend > 0 ? 'up' : trend < 0 ? 'down' : 'stable' }\<close>
\<close>

definition withTrend :: "tally \<Rightarrow> jsnum \<Rightarrow> bucket" where
  "withTrend current tr =
     \<lparr>period = period current, total = total current, success = success current,
      warning = warning current, fail = fail current,
      trend = Math_round tr,
      trendDirection = (if js_gt0 tr then Up else if js_lt0 tr then Down else Stable)\<rparr>"

text \<open>
  The objects \<^verbatim>\<open>monthlyData\<close> and \<^verbatim>\<open>dailyData\<close> are association lists in insertion order.
  One pass of the \<^verbatim>\<open>forEach\<close> body: create the entry when it is missing, then count the event.
\<close>

definition addEvent :: "period \<Rightarrow> 'k \<Rightarrow> status \<Rightarrow> ('k \<times> tally) list \<Rightarrow> ('k \<times> tally) list" where
  "addEvent p k s dict =
     (let dict1 = (if map_of dict k = None then AList.update k (emptyTally p) dict else dict)
      in case map_of dict1 k of
           None \<Rightarrow> dict1
         | Some t \<Rightarrow> AList.update k (countStatus s t) dict1)"

fun monthlyData :: "event list \<Rightarrow> ((int \<times> int) \<times> tally) list \<Rightarrow> error + ((int \<times> int) \<times> tally) list" where
  "monthlyData [] dict = Inr dict"
| "monthlyData (item # rest) dict =
     (case format_ym (date item) of
        Inl e \<Rightarrow> Inl e
      | Inr month \<Rightarrow> monthlyData rest (addEvent (YM month) month (status item) dict))"

definition monthBucket :: "((int \<times> int) \<times> tally) list \<Rightarrow> (int \<times> int) list \<Rightarrow> nat \<Rightarrow> error + bucket" where
  "monthBucket md months index =
     (case map_of md (months ! index) of
        None \<Rightarrow> Inl TypeError
      | Some current \<Rightarrow>
          let previous = (if 0 < index then map_of md (months ! (index - 1)) else None);
              tr = (case previous of
                      Some prev \<Rightarrow> percentChange (total current) (total prev) (total prev)
                    | None \<Rightarrow> Num 0)
          in Inr (withTrend current tr))"

definition processedMonthly :: "event list \<Rightarrow> error + bucket list" where
  "processedMonthly data =
     (case monthlyData data [] of
        Inl e \<Rightarrow> Inl e
      | Inr md \<Rightarrow>
          let months = sort (map fst md)
          in sequence (map (monthBucket md months) [0..<length months]))"

definition dailyData :: "event list \<Rightarrow> (isodate \<times> tally) list" where
  "dailyData data = fold (\<lambda>item. addEvent (YMD (date item)) (date item) (status item)) data []"

definition dayBucket :: "(isodate \<times> tally) list \<Rightarrow> isodate list \<Rightarrow> nat \<Rightarrow> error + bucket" where
  "dayBucket dd dates index =
     (let d = dates ! index;
          current = (case map_of dd d of Some c \<Rightarrow> c | None \<Rightarrow> emptyTally (YMD d));
          previous = (if 0 < index
                      then Some (case map_of dd (dates ! (index - 1)) of
                                   Some p \<Rightarrow> total p | None \<Rightarrow> 0)
                      else None);
          tr = (case previous of
                  Some prev \<Rightarrow> percentChange (total current) prev (max prev 1)
                | None \<Rightarrow> Num 0)
      in case parseISO (Some d) of
           None \<Rightarrow> Inl InvalidTimeValue
         | Some t \<Rightarrow> Inr (withTrend current tr))"

definition processedDaily :: "event list \<Rightarrow> error + bucket list" where
  "processedDaily data =
     (let dates = dates_of data;
          dd = dailyData data
      in sequence (map (dayBucket dd dates) [0..<length dates]))"

text \<open>\<^verbatim>\<open>eventDate >= weekStart && eventDate <= weekEnd\<close>; false for the Invalid Date.\<close>

definition inWeek :: "int \<Rightarrow> event \<Rightarrow> bool" where
  "inWeek week d =
     (case parseISO (Some (date d)) of
        None \<Rightarrow> False
      | Some eventDate \<Rightarrow> startOfWeek week \<le> eventDate \<and> eventDate \<le> endOfWeek week)"

definition weekBucket :: "event list \<Rightarrow> int list \<Rightarrow> nat \<Rightarrow> bucket" where
  "weekBucket data weeks index =
     (let week = weeks ! index;
          weekEvents = filter (inWeek week) data;
          weekData = tallyOf (YMD (format_ymd week)) weekEvents;
          tr = (if 0 < index
                then let prevWeekEvents = filter (inWeek (weeks ! (index - 1))) data
                     in if 0 < length prevWeekEvents
                        then percentChange (total weekData) (length prevWeekEvents)
                               (length prevWeekEvents)
                        else Num 0
                else Num 0)
      in withTrend weekData tr)"

definition processedWeekly :: "event list \<Rightarrow> error + bucket list" where
  "processedWeekly data =
     (let dates = dates_of data;
          firstDate = parseISO (js_nth dates 0);
          lastDate = parseISO (js_nth dates (int (length dates) - 1))
      in case eachWeekOfInterval firstDate lastDate of
           Inl e \<Rightarrow> Inl e
         | Inr weeks \<Rightarrow> Inr (map (weekBucket data weeks) [0..<length weeks]))"

definition processedData :: "granularity \<Rightarrow> event list \<Rightarrow> error + bucket list" where
  "processedData g data =
     (case g of
        Monthly \<Rightarrow> processedMonthly data
      | Daily \<Rightarrow> processedDaily data
      | Weekly \<Rightarrow> processedWeekly data)"

section \<open>The heat map: \<^verbatim>\<open>HeatmapChart\<close>\<close>

text \<open>
  The intensity of a cell is the quotient of two counts.  It is used as it is, never rounded to
  an integer, and the field holds the exact quotient that the double of the code approximates.
\<close>

record cell =
  cellActivityType :: string
  cellPeriod :: period
  cellStatus :: "status option"
  events :: "event list"
  count :: nat
  intensity :: jsnum

text \<open>
  \<^verbatim>\<open>Array.from(new Set(data.filter(d => d && d.activityType).map(d => d.activityType)))\<close>:
  the empty string is falsy.
\<close>

definition activityTypes :: "event list \<Rightarrow> string list" where
  "activityTypes data = uniq (map activityType (filter (\<lambda>d. activityType d \<noteq> []) data))"

definition heatmapWeeks :: "event list \<Rightarrow> error + int list" where
  "heatmapWeeks data =
     (let validDates = dates_of data
      in if 0 < length validDates
         then eachWeekOfInterval (parseISO (js_nth validDates 0))
                (parseISO (js_nth validDates (int (length validDates) - 1)))
         else Inr [])"

text \<open>
  \<^verbatim>\<open>events.reduce((acc, event) => { acc[event.status] = (acc[event.status] || 0) + 1; return acc }, {})\<close>
\<close>

definition statusCounts :: "event list \<Rightarrow> status \<Rightarrow> nat option" where
  "statusCounts evs =
     fold (\<lambda>event acc. acc(status event \<mapsto> (case acc (status event) of None \<Rightarrow> 0 | Some n \<Rightarrow> n) + 1))
       evs Map.empty"

definition truthy :: "nat option \<Rightarrow> bool" where
  "truthy v = (case v of None \<Rightarrow> False | Some n \<Rightarrow> n \<noteq> 0)"

definition dominantStatus :: "event list \<Rightarrow> status" where
  "dominantStatus evs =
     (let sc = statusCounts evs
      in if truthy (sc Fail) then Fail else if truthy (sc Warning) then Warning else Success)"

definition dayEvents :: "event list \<Rightarrow> string \<Rightarrow> isodate \<Rightarrow> event list" where
  "dayEvents data aType d = filter (\<lambda>item. date item = d \<and> activityType item = aType) data"

definition dailyCell :: "event list \<Rightarrow> isodate list \<Rightarrow> string \<Rightarrow> isodate \<Rightarrow> error + cell" where
  "dailyCell data dates aType d =
     (let evs = dayEvents data aType d;
          st = (if 0 < length evs then Some (dominantStatus evs) else None);
          inten = (if 0 < length evs
                   then js_div (of_nat (length evs))
                          (of_nat (Math_max (map (\<lambda>d'. length (dayEvents data aType d')) dates) 1))
                   else Num 0)
      in case parseISO (Some d) of
           None \<Rightarrow> Inl InvalidTimeValue
         | Some t \<Rightarrow>
             Inr \<lparr>cellActivityType = aType, cellPeriod = YMD d, cellStatus = st,
                  events = evs, count = length evs, intensity = inten\<rparr>)"

text \<open>
  In the monthly view \<^verbatim>\<open>format(parseISO(date), 'yyyy-MM')\<close> is first taken of every date of
  \<^verbatim>\<open>dates\<close>, where it may throw; the later calls on event dates repeat it on the same strings.
\<close>

definition monthEvents :: "event list \<Rightarrow> string \<Rightarrow> int \<times> int \<Rightarrow> event list" where
  "monthEvents data aType month =
     filter (\<lambda>d. month_key (date d) = month \<and> activityType d = aType) data"

definition monthlyCell :: "event list \<Rightarrow> (int \<times> int) list \<Rightarrow> string \<Rightarrow> int \<times> int \<Rightarrow> cell" where
  "monthlyCell data months aType month =
     (let evs = monthEvents data aType month;
          st = (if 0 < length evs then Some (dominantStatus evs) else None);
          inten = (if 0 < length evs
                   then js_div (of_nat (length evs))
                          (of_nat (Math_max (map (\<lambda>m. length (monthEvents data aType m)) months) 1))
                   else Num 0)
      in \<lparr>cellActivityType = aType, cellPeriod = YM month, cellStatus = st,
          events = evs, count = length evs, intensity = inten\<rparr>)"

definition weekEvents :: "event list \<Rightarrow> string \<Rightarrow> int \<Rightarrow> event list" where
  "weekEvents data aType week = filter (\<lambda>d. activityType d = aType \<and> inWeek week d) data"

definition maxEvents :: "event list \<Rightarrow> string list \<Rightarrow> int list \<Rightarrow> nat" where
  "maxEvents data types weeks =
     Math_max (map (\<lambda>type. Math_max (map (\<lambda>w. length (weekEvents data type w)) weeks) 1) types) 1"

definition weeklyCell :: "event list \<Rightarrow> string list \<Rightarrow> int list \<Rightarrow> string \<Rightarrow> int \<Rightarrow> cell" where
  "weeklyCell data types weeks aType week =
     (let evs = weekEvents data aType week;
          st = (if 0 < length evs then Some (dominantStatus evs) else None);
          inten = (if 0 < length evs
                   then js_div (of_nat (length evs)) (of_nat (maxEvents data types weeks))
                   else Num 0)
      in \<lparr>cellActivityType = aType, cellPeriod = YMD (format_ymd week), cellStatus = st,
          events = evs, count = length evs, intensity = inten\<rparr>)"

definition processDataByGranularity :: "granularity \<Rightarrow> event list \<Rightarrow> int list \<Rightarrow> error + cell list" where
  "processDataByGranularity g data weeks =
     (let types = activityTypes data; dates = dates_of data
      in case g of
           Daily \<Rightarrow> sequence (concat (map (\<lambda>aType. map (dailyCell data dates aType) dates) types))
         | Monthly \<Rightarrow>
             (case sequence (map format_ym dates) of
                Inl e \<Rightarrow> Inl e
              | Inr ms \<Rightarrow>
                  let months = uniq ms
                  in Inr (concat (map (\<lambda>aType. map (monthlyCell data months aType) months) types)))
         | Weekly \<Rightarrow> Inr (concat (map (\<lambda>aType. map (weeklyCell data types weeks aType) weeks) types)))"

text \<open>\<^verbatim>\<open>gridData\<close>: the component computes \<^verbatim>\<open>weeks\<close> on every render, before the grid.\<close>

definition gridData :: "granularity \<Rightarrow> event list \<Rightarrow> error + cell list" where
  "gridData g data =
     (case heatmapWeeks data of
        Inl e \<Rightarrow> Inl e
      | Inr weeks \<Rightarrow> processDataByGranularity g data weeks)"

section \<open>Notions used in the statements\<close>

text \<open>The month keys of a collection in ascending order, and the events of one day or month.\<close>

definition months_of :: "event list \<Rightarrow> (int \<times> int) list" where
  "months_of data = sort (uniq (map (\<lambda>d. month_key (date d)) data))"

definition eventsOn :: "event list \<Rightarrow> isodate \<Rightarrow> event list" where
  "eventsOn data d = filter (\<lambda>e. date e = d) data"

definition eventsInMonth :: "event list \<Rightarrow> int \<times> int \<Rightarrow> event list" where
  "eventsInMonth data m = filter (\<lambda>e. month_key (date e) = m) data"

text \<open>
  The cell that each of the three branches of \<^verbatim>\<open>processDataByGranularity\<close> builds from an
  activity type, a period key, the events of the bin and the denominator of the intensity.
\<close>

definition cellOf :: "string \<Rightarrow> period \<Rightarrow> event list \<Rightarrow> nat \<Rightarrow> cell" where
  "cellOf aType p evs den =
     \<lparr>cellActivityType = aType, cellPeriod = p,
      cellStatus = (if 0 < length evs then Some (dominantStatus evs) else None),
      events = evs, count = length evs,
      intensity = (if 0 < length evs then js_div (of_nat (length evs)) (of_nat den) else Num 0)\<rparr>"

text \<open>The weeks from the week of the first date to the week of the last date.\<close>

definition weeks_of :: "event list \<Rightarrow> int list" where
  "weeks_of data =
     week_loop (startOfWeek (day_number (hd (dates_of data))))
       (startOfWeek (day_number (last (dates_of data))))"

definition year_length :: "int \<Rightarrow> int" where
  "year_length y = (if isLeapYear y then 366 else 365)"

definition all_valid :: "event list \<Rightarrow> bool" where
  "all_valid data = list_all (\<lambda>e. valid_date (date e)) data"

text \<open>An event of a given day, activity type and status, for the examples.\<close>

definition ev :: "isodate \<Rightarrow> string \<Rightarrow> status \<Rightarrow> event" where
  "ev d a s = \<lparr>date = d, activityType = a, status = s, user = ''u1'', device = ''d1''\<rparr>"

text \<open>Three small collections, one for each granularity.\<close>

definition sample_days :: "event list" where
  "sample_days =
     [ev (2024, 1, 1) ''login'' Success, ev (2024, 1, 1) ''login'' Fail,
      ev (2024, 1, 3) ''transfer'' Warning]"

definition sample_weeks :: "event list" where
  "sample_weeks =
     [ev (2024, 1, 1) ''login'' Success, ev (2024, 1, 15) ''login'' Success,
      ev (2024, 1, 16) ''login'' Fail]"

definition sample_months :: "event list" where
  "sample_months =
     [ev (2024, 1, 30) ''login'' Success, ev (2024, 3, 1) ''login'' Fail,
      ev (2024, 3, 2) ''transfer'' Warning]"

text \<open>Forty events on one day and sixty-three on the next.\<close>

definition sample_rise :: "event list" where
  "sample_rise =
     replicate 40 (ev (2024, 2, 1) ''login'' Success) @
     replicate 63 (ev (2024, 2, 2) ''login'' Fail)"

section \<open>Rounding to a double\<close>

text \<open>
  Some doubles: a tenth and a third are rounded, a half and a hundred are not, and a tie goes to
  the even significand.
\<close>

lemma binary64_samples:
  "binary64 (1 / 10) = 3602879701896397 / 2 ^ 55"
  "binary64 (1 / 3) = 6004799503160661 / 2 ^ 54"
  "binary64 (1 / 2) = 1 / 2"
  "binary64 100 = 100"
  "binary64 (- (2 / 3)) = - (6004799503160661 / 2 ^ 53)"
  "binary64 (2 ^ 53 + 1) = 2 ^ 53"
  "binary64 (2 ^ 53 + 3) = 2 ^ 53 + 4"
  "exponent2 (1 / 3) = - 2"
  "exponent2 1 = 0"
  "exponent2 (2 ^ 53 + 1) = 53"
  by code_simp+

text \<open>
  The percentage of 63 after 40, and of 29 after 40, as the code computes it, beside the rounded
  exact value.
\<close>

lemma percentChange_samples:
  "Math_round (percentChange 63 40 40) = Num 57"
  "Math_round (Num ((63 - 40) / 40 * 100)) = Num 58"
  "Math_round (percentChange 29 40 40) = Num (- 28)"
  "Math_round (Num ((29 - 40) / 40 * 100)) = Num (- 27)"
  "Math_round (percentChange 1 3 3) = Num (- 67)"
  "Math_round (percentChange 3 2 2) = Num 50"
  by code_simp+

lemma pow2_power_int: "pow2 k = power_int 2 k"
  by (simp add: pow2_def power_int_def inverse_eq_divide power_one_over)

lemma pow2_pos: "0 < pow2 k"
  by (simp add: pow2_power_int)

lemma pow2_mono: "j \<le> k \<Longrightarrow> pow2 j \<le> pow2 k"
  by (simp add: pow2_power_int power_int_increasing)

lemma pow2_nat: "0 \<le> k \<Longrightarrow> pow2 k = 2 ^ nat k"
  by (simp add: pow2_def)

lemma pow2_diff: "pow2 (j - k) = pow2 j / pow2 k"
  by (simp add: pow2_power_int power_int_diff)

lemma exponent2_bounds:
  assumes "0 < x"
  shows "pow2 (exponent2 x) \<le> x \<and> x < pow2 (exponent2 x + 1)"
proof -
  obtain p q where pq: "quotient_of x = (p, q)"
    by (cases "quotient_of x")
  then have q: "0 < q" and x: "x = of_int p / of_int q"
    by (rule quotient_of_denom_pos, rule quotient_of_div)
  with assms have p: "0 < p"
    by (simp add: zero_less_divide_iff)
  let ?k = "bitlen p - bitlen q"
  have e: "exponent2 x = (if pow2 ?k \<le> x then ?k else ?k - 1)"
    by (simp add: exponent2_def pq)
  have bp: "(2::rat) ^ nat (bitlen p - 1) \<le> of_int p" "of_int p < (2::rat) ^ nat (bitlen p)"
    using bitlen_bounds [OF p] by (metis of_int_le_iff of_int_numeral of_int_power, metis of_int_less_iff of_int_numeral of_int_power)
  have bq: "(2::rat) ^ nat (bitlen q - 1) \<le> of_int q" "of_int q < (2::rat) ^ nat (bitlen q)"
    using bitlen_bounds [OF q] by (metis of_int_le_iff of_int_numeral of_int_power, metis of_int_less_iff of_int_numeral of_int_power)
  have p1: "1 \<le> bitlen p" and q1: "1 \<le> bitlen q"
    using p q bitlen_eq_zero_iff [of p] bitlen_eq_zero_iff [of q] bitlen_nonneg [of p] bitlen_nonneg [of q]
    by linarith+
  have lo: "pow2 (?k - 1) \<le> x"
  proof -
    have "pow2 (?k - 1) = pow2 (bitlen p - 1) / pow2 (bitlen q)"
      using pow2_diff [of "bitlen p - 1" "bitlen q"] by (simp add: algebra_simps)
    also have "\<dots> = 2 ^ nat (bitlen p - 1) / 2 ^ nat (bitlen q)"
      using p1 q1 by (simp add: pow2_nat)
    also have "\<dots> \<le> of_int p / of_int q"
      using bp(1) bq(2) q p by (intro frac_le) simp_all
    finally show ?thesis
      by (simp add: x)
  qed
  have hi: "x < pow2 (?k + 1)"
  proof -
    have "x = of_int p / of_int q"
      by (rule x)
    also have "\<dots> < 2 ^ nat (bitlen p) / 2 ^ nat (bitlen q - 1)"
      using bp(2) bq(1) q p by (intro frac_less) simp_all
    also have "\<dots> = pow2 (bitlen p) / pow2 (bitlen q - 1)"
      using p1 q1 by (simp add: pow2_nat)
    also have "\<dots> = pow2 (?k + 1)"
      using pow2_diff [of "bitlen p" "bitlen q - 1"] by (simp add: algebra_simps)
    finally show ?thesis .
  qed
  show ?thesis
  proof (cases "pow2 ?k \<le> x")
    case True
    with e hi show ?thesis
      by simp
  next
    case False
    with e lo show ?thesis
      by simp
  qed
qed

lemma roundTiesToEven_bounds:
  "of_int (roundTiesToEven q) - 1 / 2 \<le> q \<and> q \<le> of_int (roundTiesToEven q) + 1 / 2"
  unfolding roundTiesToEven_def Let_def by (auto; linarith)

lemma roundTiesToEven_pos: "1 \<le> q \<Longrightarrow> 0 < roundTiesToEven q"
proof -
  assume "1 \<le> q"
  with roundTiesToEven_bounds [of q] have "(0::rat) < of_int (roundTiesToEven q)"
    by linarith
  then show ?thesis
    by simp
qed

lemma binary64_zero: "binary64 0 = 0"
  by (simp add: binary64_def)

lemma significand_pos:
  assumes "x \<noteq> 0"
  shows "0 < roundTiesToEven (\<bar>x\<bar> / pow2 (exponent2 \<bar>x\<bar> - 52))"
proof -
  from assms have "0 < \<bar>x\<bar>"
    by simp
  then have "pow2 (exponent2 \<bar>x\<bar>) \<le> \<bar>x\<bar>"
    using exponent2_bounds by blast
  moreover have "pow2 (exponent2 \<bar>x\<bar> - 52) \<le> pow2 (exponent2 \<bar>x\<bar>)"
    by (rule pow2_mono) simp
  ultimately have "pow2 (exponent2 \<bar>x\<bar> - 52) \<le> \<bar>x\<bar>"
    by (rule order_trans [rotated])
  then have "1 \<le> \<bar>x\<bar> / pow2 (exponent2 \<bar>x\<bar> - 52)"
    using pow2_pos [of "exponent2 \<bar>x\<bar> - 52"] by (simp add: le_divide_eq)
  then show ?thesis
    by (rule roundTiesToEven_pos)
qed

lemma binary64_pos_iff: "0 < binary64 x \<longleftrightarrow> 0 < x"
proof (cases "x = 0")
  case True
  then show ?thesis
    by (simp add: binary64_def)
next
  case False
  from significand_pos [OF False] pow2_pos [of "exponent2 \<bar>x\<bar> - 52"] False show ?thesis
    by (simp add: binary64_def Let_def zero_less_mult_iff sgn_if)
qed

lemma binary64_neg_iff: "binary64 x < 0 \<longleftrightarrow> x < 0"
proof (cases "x = 0")
  case True
  then show ?thesis
    by (simp add: binary64_def)
next
  case False
  from significand_pos [OF False] pow2_pos [of "exponent2 \<bar>x\<bar> - 52"] False show ?thesis
    by (simp add: binary64_def Let_def mult_less_0_iff zero_less_mult_iff sgn_if)
qed

text \<open>The double is within half a unit in the last place of the exact value.\<close>

lemma binary64_nearest:
  assumes "x \<noteq> 0"
  shows "\<bar>binary64 x - x\<bar> \<le> pow2 (exponent2 \<bar>x\<bar> - 52) / 2"
proof -
  let ?u = "pow2 (exponent2 \<bar>x\<bar> - 52)"
  let ?n = "roundTiesToEven (\<bar>x\<bar> / ?u)"
  have u: "0 < ?u"
    by (rule pow2_pos)
  have b: "binary64 x = sgn x * of_int ?n * ?u"
    using assms by (simp add: binary64_def Let_def)
  have "\<bar>of_int ?n - \<bar>x\<bar> / ?u\<bar> \<le> 1 / 2"
    using roundTiesToEven_bounds [of "\<bar>x\<bar> / ?u"] by linarith
  then have "\<bar>of_int ?n - \<bar>x\<bar> / ?u\<bar> * ?u \<le> 1 / 2 * ?u"
    using u by (intro mult_right_mono) simp_all
  moreover have "of_int ?n * ?u - \<bar>x\<bar> = (of_int ?n - \<bar>x\<bar> / ?u) * ?u"
    using u by (simp add: left_diff_distrib)
  then have "\<bar>of_int ?n * ?u - \<bar>x\<bar>\<bar> = \<bar>of_int ?n - \<bar>x\<bar> / ?u\<bar> * ?u"
    using u by (simp only: abs_mult) simp
  ultimately have "\<bar>of_int ?n * ?u - \<bar>x\<bar>\<bar> \<le> ?u / 2"
    by simp
  moreover have "\<bar>binary64 x - x\<bar> = \<bar>of_int ?n * ?u - \<bar>x\<bar>\<bar>"
  proof -
    define m where "m = of_int ?n * ?u"
    have "binary64 x = sgn x * m"
      by (simp add: b m_def)
    then have "binary64 x - x = m - \<bar>x\<bar> \<or> binary64 x - x = - (m - \<bar>x\<bar>)"
      using assms by (cases "0 < x") (simp_all add: sgn_if)
    then have "\<bar>binary64 x - x\<bar> = \<bar>m - \<bar>x\<bar>\<bar>"
      by (elim disjE) (simp_all only: abs_minus)
    then show ?thesis
      by (simp only: m_def)
  qed
  ultimately show ?thesis
    by simp
qed

text \<open>Its significand has 53 bits.\<close>

lemma binary64_significand:
  assumes "x \<noteq> 0"
  shows "\<exists>n. binary64 x = sgn x * of_int n * pow2 (exponent2 \<bar>x\<bar> - 52) \<and> 2 ^ 52 \<le> n \<and> n \<le> 2 ^ 53"
proof -
  let ?e = "exponent2 \<bar>x\<bar>"
  let ?u = "pow2 (?e - 52)"
  let ?q = "\<bar>x\<bar> / ?u"
  have u: "0 < ?u"
    by (rule pow2_pos)
  from assms have "0 < \<bar>x\<bar>"
    by simp
  then have b: "pow2 ?e \<le> \<bar>x\<bar>" "\<bar>x\<bar> < pow2 (?e + 1)"
    using exponent2_bounds by blast+
  have "pow2 ?e / ?u = pow2 52" "pow2 (?e + 1) / ?u = pow2 53"
    using pow2_diff [of ?e "?e - 52", symmetric] pow2_diff [of "?e + 1" "?e - 52", symmetric] by simp_all
  moreover have "pow2 ?e / ?u \<le> ?q" "?q < pow2 (?e + 1) / ?u"
    using b u by (simp_all add: divide_right_mono divide_strict_right_mono)
  ultimately have q: "2 ^ 52 \<le> ?q" "?q < 2 ^ 53"
    by (simp_all add: pow2_nat)
  have "of_int (roundTiesToEven ?q) - 1 / 2 \<le> ?q" "?q \<le> of_int (roundTiesToEven ?q) + 1 / 2"
    using roundTiesToEven_bounds [of ?q] by simp_all
  with q have "(2::rat) ^ 52 - 1 / 2 \<le> of_int (roundTiesToEven ?q)" "of_int (roundTiesToEven ?q) < (2::rat) ^ 53 + 1 / 2"
    by linarith+
  then have "of_int (2 ^ 52 - 1) < (of_int (roundTiesToEven ?q) :: rat)"
    "(of_int (roundTiesToEven ?q) :: rat) < of_int (2 ^ 53 + 1)"
    by simp_all
  then have "2 ^ 52 - 1 < roundTiesToEven ?q" "roundTiesToEven ?q < 2 ^ 53 + 1"
    by (simp_all only: of_int_less_iff)
  then have "2 ^ 52 \<le> roundTiesToEven ?q" "roundTiesToEven ?q \<le> 2 ^ 53"
    by simp_all
  moreover have "binary64 x = sgn x * of_int (roundTiesToEven ?q) * ?u"
    using assms by (simp add: binary64_def Let_def)
  ultimately show ?thesis
    by blast
qed

section \<open>Arrays, sets and tallies\<close>

lemma set_uniq [simp]: "set (uniq xs) = set xs"
  by (simp add: uniq_def)

lemma distinct_uniq [simp]: "distinct (uniq xs)"
  by (simp add: uniq_def)

lemma set_dates_of: "set (dates_of data) = date ` set data"
  by (simp add: dates_of_def)

lemma distinct_dates_of: "distinct (dates_of data)"
  by (simp add: dates_of_def)

lemma sorted_dates_of: "sorted (dates_of data)"
  by (simp add: dates_of_def)

lemma sequence_map_Inr: "sequence (map Inr vs) = Inr vs"
  by (induction vs) auto

lemma sequence_Inr_D: "sequence xs = Inr vs \<Longrightarrow> xs = map Inr vs"
  by (induction xs arbitrary: vs) (auto split: sum.splits)

lemma fold_max_eq: "fold max xs (a::nat) = Max (insert a (set xs))"
  by (metis Max.set_eq_fold list.simps(15))

lemma Math_max_eq: "Math_max xs d = Max (insert d (set xs))"
proof -
  have "Math_max xs d = max d (Max (insert 0 (set xs)))"
    by (simp add: Math_max_def fold_max_eq)
  also have "\<dots> = Max (insert d (insert 0 (set xs)))"
    by simp
  also have "\<dots> = Max (insert 0 (insert d (set xs)))"
    by (simp add: insert_commute)
  also have "\<dots> = max 0 (Max (insert d (set xs)))"
    by (subst Max_insert) simp_all
  finally show ?thesis by simp
qed

lemma fold_countStatus_total:
  "total (fold (\<lambda>event. countStatus (status event)) evs t) = total t + length evs"
  by (induction evs arbitrary: t) (auto simp: countStatus_def split: status.splits)

lemma fold_countStatus_period:
  "period (fold (\<lambda>event. countStatus (status event)) evs t) = period t"
  by (induction evs arbitrary: t) (auto simp: countStatus_def split: status.splits)

lemma total_tallyOf [simp]: "total (tallyOf p evs) = length evs"
  by (simp add: tallyOf_def fold_countStatus_total emptyTally_def)

lemma period_tallyOf [simp]: "period (tallyOf p evs) = p"
  by (simp add: tallyOf_def fold_countStatus_period emptyTally_def)

lemma tallyOf_snoc: "tallyOf p (evs @ [e]) = countStatus (status e) (tallyOf p evs)"
  by (simp add: tallyOf_def)

lemma total_withTrend [simp]: "total (withTrend c tr) = total c"
  by (simp add: withTrend_def)

lemma period_withTrend [simp]: "period (withTrend c tr) = period c"
  by (simp add: withTrend_def)

lemma trend_withTrend [simp]: "trend (withTrend c tr) = Math_round tr"
  by (simp add: withTrend_def)

lemma trendDirection_withTrend [simp]:
  "trendDirection (withTrend c tr) = (if js_gt0 tr then Up else if js_lt0 tr then Down else Stable)"
  by (simp add: withTrend_def)

lemma map_of_addEvent:
  "map_of (addEvent p k s dict) k' =
     (if k' = k
      then Some (countStatus s (case map_of dict k of None \<Rightarrow> emptyTally p | Some t \<Rightarrow> t))
      else map_of dict k')"
  by (auto simp: addEvent_def Let_def update_conv' split: option.splits)

lemma distinct_addEvent:
  "distinct (map fst dict) \<Longrightarrow> distinct (map fst (addEvent p k s dict))"
  by (auto simp: addEvent_def Let_def distinct_update split: option.splits)

lemma map_of_binFold:
  "map_of (fold (\<lambda>item. addEvent (mk (key item)) (key item) (status item)) data []) k =
     (if k \<in> key ` set data
      then Some (tallyOf (mk k) (filter (\<lambda>e. key e = k) data))
      else None)"
proof (induction data rule: rev_induct)
  case Nil
  show ?case by simp
next
  case (snoc x xs)
  let ?d = "fold (\<lambda>item. addEvent (mk (key item)) (key item) (status item)) xs []"
  show ?case
  proof (cases "key x = k")
    case False
    then show ?thesis
      using snoc by (auto simp: map_of_addEvent)
  next
    case True
    show ?thesis
    proof (cases "k \<in> key ` set xs")
      case True
      with snoc have "map_of ?d k = Some (tallyOf (mk k) (filter (\<lambda>e. key e = k) xs))"
        by simp
      with \<open>key x = k\<close> show ?thesis
        by (simp add: map_of_addEvent tallyOf_snoc)
    next
      case False
      then have "filter (\<lambda>e. key e = k) xs = []"
        by (auto simp: filter_empty_conv)
      moreover from False snoc have "map_of ?d k = None"
        by simp
      ultimately show ?thesis
        using \<open>key x = k\<close> by (simp add: map_of_addEvent tallyOf_def)
    qed
  qed
qed

lemma distinct_binFold:
  "distinct (map fst (fold (\<lambda>item. addEvent (mk (key item)) (key item) (status item))
                        (data :: event list) []))"
  by (induction data rule: rev_induct) (simp_all add: distinct_addEvent)

lemma keys_binFold:
  "set (map fst (fold (\<lambda>item. addEvent (mk (key item)) (key item) (status item))
                   (data :: event list) [])) =
     key ` set data"
proof -
  let ?d = "fold (\<lambda>item. addEvent (mk (key item)) (key item) (status item)) data []"
  have "dom (map_of ?d) = key ` set data"
    by (auto simp: dom_def map_of_binFold [where mk = mk and key = key] split: if_splits)
  then show ?thesis
    by (simp add: dom_map_of_conv_image_fst)
qed

lemma monthlyData_valid:
  "\<forall>e\<in>set data. valid_date (date e) \<Longrightarrow>
   monthlyData data dict =
     Inr (fold (\<lambda>item. addEvent (YM (month_key (date item))) (month_key (date item)) (status item))
            data dict)"
  by (induction data arbitrary: dict) (simp_all add: format_ym_def)

lemma monthlyData_invalid:
  "\<not> (\<forall>e\<in>set data. valid_date (date e)) \<Longrightarrow> monthlyData data dict = Inl InvalidTimeValue"
  by (induction data arbitrary: dict) (auto simp: format_ym_def)

lemma percentChange_Num:
  "0 < c \<Longrightarrow>
   percentChange a b c = Num (binary64 (binary64 ((of_nat a - of_nat b) / of_nat c) * 100))"
  by (simp add: percentChange_def js_div_def)

lemma map_of_dailyData:
  "map_of (dailyData data) d =
     (if d \<in> date ` set data then Some (tallyOf (YMD d) (filter (\<lambda>e. date e = d) data)) else None)"
  unfolding dailyData_def by (rule map_of_binFold [where mk = YMD and key = date])

lemma parseISO_Some: "parseISO (Some d) = (if valid_date d then Some (day_number d) else None)"
  by (simp add: parseISO_def)

lemma nth_dates_of_mem: "i < length (dates_of data) \<Longrightarrow> dates_of data ! i \<in> date ` set data"
  using set_dates_of nth_mem by blast

lemma dayBucket_eq:
  assumes "i < length (dates_of data)"
  shows "dayBucket (dailyData data) (dates_of data) i =
     (if valid_date (dates_of data ! i)
      then Inr (withTrend (tallyOf (YMD (dates_of data ! i)) (filter (\<lambda>e. date e = dates_of data ! i) data))
             (if 0 < i
              then percentChange (length (filter (\<lambda>e. date e = dates_of data ! i) data))
                     (length (filter (\<lambda>e. date e = dates_of data ! (i - 1)) data))
                     (max (length (filter (\<lambda>e. date e = dates_of data ! (i - 1)) data)) 1)
              else Num 0))
      else Inl InvalidTimeValue)"
proof -
  have cur: "dates_of data ! i \<in> date ` set data"
    using assms by (rule nth_dates_of_mem)
  have prev: "0 < i \<Longrightarrow> dates_of data ! (i - 1) \<in> date ` set data"
    using assms by (intro nth_dates_of_mem) simp
  show ?thesis
    using cur prev by (simp add: dayBucket_def Let_def map_of_dailyData parseISO_Some)
qed

lemma sequence_tabulate:
  assumes "\<And>i. i < n \<Longrightarrow> f i = Inr (h i)"
  shows "sequence (map f [0..<n]) = Inr (map h [0..<n])"
proof -
  have "map f [0..<n] = map Inr (map h [0..<n])"
    using assms by simp
  then show ?thesis
    by (simp only: sequence_map_Inr)
qed

lemma all_valid_iff: "all_valid data \<longleftrightarrow> (\<forall>e\<in>set data. valid_date (date e))"
  by (simp add: all_valid_def list_all_iff)

lemma set_months_of: "set (months_of data) = (\<lambda>e. month_key (date e)) ` set data"
  by (simp add: months_of_def)

lemma distinct_months_of: "distinct (months_of data)"
  by (simp add: months_of_def)

lemma sorted_months_of: "sorted (months_of data)"
  by (simp add: months_of_def)

lemma nth_months_of_mem:
  "i < length (months_of data) \<Longrightarrow> months_of data ! i \<in> (\<lambda>e. month_key (date e)) ` set data"
  using set_months_of nth_mem by blast

lemma monthlyData_cases:
  "monthlyData data [] =
     (if all_valid data
      then Inr (fold (\<lambda>item. addEvent (YM (month_key (date item))) (month_key (date item)) (status item))
                  data [])
      else Inl InvalidTimeValue)"
  by (simp add: all_valid_iff monthlyData_valid monthlyData_invalid)

lemma sorted_keys_monthly:
  "sort (map fst (fold (\<lambda>item. addEvent (YM (month_key (date item))) (month_key (date item)) (status item))
                    (data :: event list) [])) = months_of data"
proof (rule sorted_distinct_set_unique)
  let ?md = "fold (\<lambda>item. addEvent (YM (month_key (date item))) (month_key (date item)) (status item))
                data []"
  show "sorted (sort (map fst ?md))" by simp
  show "distinct (sort (map fst ?md))"
    using distinct_binFold [where mk = YM and key = "\<lambda>e. month_key (date e)" and data = data]
    by simp
  show "sorted (months_of data)" by (rule sorted_months_of)
  show "distinct (months_of data)" by (rule distinct_months_of)
  show "set (sort (map fst ?md)) = set (months_of data)"
    using keys_binFold [where mk = YM and key = "\<lambda>e. month_key (date e)" and data = data]
    by (simp add: set_months_of)
qed

lemma map_of_monthly:
  "map_of (fold (\<lambda>item. addEvent (YM (month_key (date item))) (month_key (date item)) (status item))
             data []) m =
     (if m \<in> (\<lambda>e. month_key (date e)) ` set data then Some (tallyOf (YM m) (eventsInMonth data m))
      else None)"
  unfolding eventsInMonth_def
  by (rule map_of_binFold [where mk = YM and key = "\<lambda>e. month_key (date e)"])

lemma processedMonthly_cases:
  "processedMonthly data =
     (if all_valid data
      then Inr (map (\<lambda>i. withTrend (tallyOf (YM (months_of data ! i)) (eventsInMonth data (months_of data ! i)))
                   (if 0 < i
                    then percentChange (length (eventsInMonth data (months_of data ! i)))
                           (length (eventsInMonth data (months_of data ! (i - 1))))
                           (length (eventsInMonth data (months_of data ! (i - 1))))
                    else Num 0))
                [0..<length (months_of data)])
      else Inl InvalidTimeValue)"
proof (cases "all_valid data")
  case False
  then show ?thesis
    by (simp add: processedMonthly_def monthlyData_cases)
next
  case True
  let ?md = "fold (\<lambda>item. addEvent (YM (month_key (date item))) (month_key (date item)) (status item))
                data []"
  let ?ms = "months_of data"
  let ?h = "\<lambda>i. withTrend (tallyOf (YM (?ms ! i)) (eventsInMonth data (?ms ! i)))
                   (if 0 < i
                    then percentChange (length (eventsInMonth data (?ms ! i)))
                           (length (eventsInMonth data (?ms ! (i - 1))))
                           (length (eventsInMonth data (?ms ! (i - 1))))
                    else Num 0)"
  have "\<And>i. i < length ?ms \<Longrightarrow> monthBucket ?md ?ms i = Inr (?h i)"
  proof -
    fix i assume i: "i < length ?ms"
    then have cur: "?ms ! i \<in> (\<lambda>e. month_key (date e)) ` set data"
      by (rule nth_months_of_mem)
    have prev: "0 < i \<Longrightarrow> ?ms ! (i - 1) \<in> (\<lambda>e. month_key (date e)) ` set data"
      using i by (intro nth_months_of_mem) simp
    show "monthBucket ?md ?ms i = Inr (?h i)"
      using cur prev by (simp add: monthBucket_def Let_def map_of_monthly)
  qed
  then have "sequence (map (monthBucket ?md ?ms) [0..<length ?ms]) = Inr (map ?h [0..<length ?ms])"
    by (rule sequence_tabulate)
  with True show ?thesis
    by (simp add: processedMonthly_def monthlyData_cases sorted_keys_monthly Let_def)
qed

lemma sequence_Inl_const:
  assumes "\<forall>x\<in>set xs. \<forall>e. x = Inl e \<longrightarrow> e = E" and "\<exists>x\<in>set xs. \<exists>e. x = Inl e"
  shows "sequence xs = Inl E"
  using assms
proof (induction xs)
  case Nil
  then show ?case by simp
next
  case (Cons x xs)
  show ?case
  proof (cases x)
    case (Inl e)
    with Cons.prems(1) show ?thesis by simp
  next
    case (Inr v)
    with Cons.prems have "\<exists>x\<in>set xs. \<exists>e. x = Inl e" by auto
    with Cons have "sequence xs = Inl E" by simp
    with Inr show ?thesis by simp
  qed
qed

lemma processedDaily_cases:
  "processedDaily data =
     (if all_valid data
      then Inr (map (\<lambda>i. withTrend (tallyOf (YMD (dates_of data ! i)) (eventsOn data (dates_of data ! i)))
                   (if 0 < i
                    then percentChange (length (eventsOn data (dates_of data ! i)))
                           (length (eventsOn data (dates_of data ! (i - 1))))
                           (max (length (eventsOn data (dates_of data ! (i - 1)))) 1)
                    else Num 0))
                [0..<length (dates_of data)])
      else Inl InvalidTimeValue)"
proof (cases "all_valid data")
  case True
  let ?ds = "dates_of data"
  have "\<And>i. i < length ?ds \<Longrightarrow> valid_date (?ds ! i)"
  proof -
    fix i assume "i < length ?ds"
    then have "?ds ! i \<in> date ` set data"
      by (rule nth_dates_of_mem)
    with True show "valid_date (?ds ! i)"
      by (auto simp: all_valid_iff)
  qed
  then have "sequence (map (dayBucket (dailyData data) ?ds) [0..<length ?ds]) =
      Inr (map (\<lambda>i. withTrend (tallyOf (YMD (?ds ! i)) (eventsOn data (?ds ! i)))
                   (if 0 < i
                    then percentChange (length (eventsOn data (?ds ! i)))
                           (length (eventsOn data (?ds ! (i - 1))))
                           (max (length (eventsOn data (?ds ! (i - 1)))) 1)
                    else Num 0)) [0..<length ?ds])"
    by (intro sequence_tabulate) (simp add: dayBucket_eq eventsOn_def)
  with True show ?thesis
    by (simp add: processedDaily_def Let_def)
next
  case False
  then obtain e where e: "e \<in> set data" "\<not> valid_date (date e)"
    by (auto simp: all_valid_iff)
  let ?ds = "dates_of data"
  from e(1) have "date e \<in> set ?ds"
    by (simp add: set_dates_of)
  then obtain i where i: "i < length ?ds" "?ds ! i = date e"
    by (auto simp: in_set_conv_nth)
  with e(2) have bad: "dayBucket (dailyData data) ?ds i = Inl InvalidTimeValue"
    by (simp add: dayBucket_eq)
  have "sequence (map (dayBucket (dailyData data) ?ds) [0..<length ?ds]) = Inl InvalidTimeValue"
  proof (rule sequence_Inl_const)
    show "\<forall>x\<in>set (map (dayBucket (dailyData data) ?ds) [0..<length ?ds]).
            \<forall>e. x = Inl e \<longrightarrow> e = InvalidTimeValue"
      by (auto simp: dayBucket_eq split: if_splits)
    show "\<exists>x\<in>set (map (dayBucket (dailyData data) ?ds) [0..<length ?ds]). \<exists>e. x = Inl e"
      using i(1) bad by force
  qed
  with False show ?thesis
    by (simp add: processedDaily_def Let_def)
qed

lemma weekBucket_eq:
  "weekBucket data weeks i =
     withTrend (tallyOf (YMD (format_ymd (weeks ! i))) (filter (inWeek (weeks ! i)) data))
       (if 0 < i \<and> 0 < length (filter (inWeek (weeks ! (i - 1))) data)
        then percentChange (length (filter (inWeek (weeks ! i)) data))
               (length (filter (inWeek (weeks ! (i - 1))) data))
               (length (filter (inWeek (weeks ! (i - 1))) data))
        else Num 0)"
  by (simp add: weekBucket_def Let_def)

lemma processedWeekly_Inr:
  assumes "processedWeekly data = Inr bs"
  shows "\<exists>weeks. eachWeekOfInterval (parseISO (js_nth (dates_of data) 0))
                   (parseISO (js_nth (dates_of data) (int (length (dates_of data)) - 1))) = Inr weeks \<and>
                 bs = map (weekBucket data weeks) [0..<length weeks]"
  using assms by (auto simp: processedWeekly_def Let_def split: sum.splits)

lemma eventsInMonth_nonempty:
  "m \<in> (\<lambda>e. month_key (date e)) ` set data \<Longrightarrow> 0 < length (eventsInMonth data m)"
  by (auto simp: eventsInMonth_def filter_empty_conv)

lemma eventsOn_nonempty: "d \<in> date ` set data \<Longrightarrow> 0 < length (eventsOn data d)"
  by (auto simp: eventsOn_def filter_empty_conv)

lemma max_length_one: "0 < length xs \<Longrightarrow> max (length xs) 1 = length xs"
  by (cases xs) simp_all

lemma processedData_trend:
  assumes "processedData g data = Inr bs" and "i < length bs"
  shows "\<exists>c. bs ! i = withTrend c
           (if 0 < i \<and> (g = Weekly \<longrightarrow> 0 < total (bs ! (i - 1)))
            then percentChange (total c) (total (bs ! (i - 1))) (max (total (bs ! (i - 1))) 1)
            else Num 0)"
proof (cases g)
  case Daily
  let ?ds = "dates_of data"
  let ?h = "\<lambda>i. withTrend (tallyOf (YMD (?ds ! i)) (eventsOn data (?ds ! i)))
                   (if 0 < i
                    then percentChange (length (eventsOn data (?ds ! i)))
                           (length (eventsOn data (?ds ! (i - 1))))
                           (max (length (eventsOn data (?ds ! (i - 1)))) 1)
                    else Num 0)"
  from assms Daily have bs: "bs = map ?h [0..<length ?ds]"
    by (simp add: processedData_def processedDaily_cases split: if_splits)
  with assms(2) have i: "i < length ?ds" by simp
  from bs i have cur: "bs ! i = ?h i" by simp
  from bs i have prev: "0 < i \<Longrightarrow> bs ! (i - 1) = ?h (i - 1)" by simp
  show ?thesis
    using cur prev Daily
    by (intro exI [of _ "tallyOf (YMD (?ds ! i)) (eventsOn data (?ds ! i))"]) simp
next
  case Monthly
  let ?ms = "months_of data"
  let ?h = "\<lambda>i. withTrend (tallyOf (YM (?ms ! i)) (eventsInMonth data (?ms ! i)))
                   (if 0 < i
                    then percentChange (length (eventsInMonth data (?ms ! i)))
                           (length (eventsInMonth data (?ms ! (i - 1))))
                           (length (eventsInMonth data (?ms ! (i - 1))))
                    else Num 0)"
  from assms Monthly have bs: "bs = map ?h [0..<length ?ms]"
    by (simp add: processedData_def processedMonthly_cases split: if_splits)
  with assms(2) have i: "i < length ?ms" by simp
  from bs i have cur: "bs ! i = ?h i" by simp
  from bs i have prev: "0 < i \<Longrightarrow> bs ! (i - 1) = ?h (i - 1)" by simp
  have "0 < i \<Longrightarrow> 0 < length (eventsInMonth data (?ms ! (i - 1)))"
    using i by (intro eventsInMonth_nonempty nth_months_of_mem) simp
  then have mx: "0 < i \<Longrightarrow> max (length (eventsInMonth data (?ms ! (i - 1)))) 1
      = length (eventsInMonth data (?ms ! (i - 1)))"
    by (rule max_length_one)
  show ?thesis
    using cur prev mx Monthly
    by (intro exI [of _ "tallyOf (YM (?ms ! i)) (eventsInMonth data (?ms ! i))"]) simp
next
  case Weekly
  with assms(1) obtain weeks where bs: "bs = map (weekBucket data weeks) [0..<length weeks]"
    using processedWeekly_Inr by (auto simp: processedData_def)
  with assms(2) have i: "i < length weeks" by simp
  from bs i have cur: "bs ! i = weekBucket data weeks i" by simp
  from bs i have ptot: "0 < i \<Longrightarrow> total (bs ! (i - 1)) = length (filter (inWeek (weeks ! (i - 1))) data)"
    by (simp add: weekBucket_eq)
  show ?thesis
  proof (cases "0 < i \<and> 0 < length (filter (inWeek (weeks ! (i - 1))) data)")
    case True
    then have "max (length (filter (inWeek (weeks ! (i - 1))) data)) 1
        = length (filter (inWeek (weeks ! (i - 1))) data)"
      by (intro max_length_one) simp
    with True ptot cur show ?thesis
      by (intro exI [of _ "tallyOf (YMD (format_ymd (weeks ! i))) (filter (inWeek (weeks ! i)) data)"])
        (simp add: weekBucket_eq)
  next
    case False
    with ptot cur Weekly show ?thesis
      by (intro exI [of _ "tallyOf (YMD (format_ymd (weeks ! i))) (filter (inWeek (weeks ! i)) data)"])
        (auto simp: weekBucket_eq)
  qed
qed

lemma date_ev [simp]: "date (ev d a s) = d"
  by (simp add: ev_def)

lemma status_ev [simp]: "status (ev d a s) = s"
  by (simp add: ev_def)

lemma activityType_ev [simp]: "activityType (ev d a s) = a"
  by (simp add: ev_def)

section \<open>The bar graph on the sample collections\<close>

lemma daily_example:
  "processedData Daily sample_days =
     Inr [\<lparr>period = YMD (2024, 1, 1), total = 2, success = 1, warning = 0, fail = 1,
           trend = Num 0, trendDirection = Stable\<rparr>,
          \<lparr>period = YMD (2024, 1, 3), total = 1, success = 0, warning = 1, fail = 0,
           trend = Num (- 50), trendDirection = Down\<rparr>]"
  by code_simp

lemma weekly_example:
  "processedData Weekly sample_weeks =
     Inr [\<lparr>period = YMD (2023, 12, 31), total = 1, success = 1, warning = 0, fail = 0,
           trend = Num 0, trendDirection = Stable\<rparr>,
          \<lparr>period = YMD (2024, 1, 7), total = 0, success = 0, warning = 0, fail = 0,
           trend = Num (- 100), trendDirection = Down\<rparr>,
          \<lparr>period = YMD (2024, 1, 14), total = 2, success = 1, warning = 0, fail = 1,
           trend = Num 0, trendDirection = Stable\<rparr>]"
  by code_simp

lemma monthly_example:
  "processedData Monthly sample_months =
     Inr [\<lparr>period = YM (2024, 1), total = 1, success = 1, warning = 0, fail = 0,
           trend = Num 0, trendDirection = Stable\<rparr>,
          \<lparr>period = YM (2024, 3), total = 2, success = 0, warning = 1, fail = 1,
           trend = Num 100, trendDirection = Up\<rparr>]"
  by code_simp

lemma rise_example:
  "processedData Daily sample_rise =
     Inr [\<lparr>period = YMD (2024, 2, 1), total = 40, success = 40, warning = 0, fail = 0,
           trend = Num 0, trendDirection = Stable\<rparr>,
          \<lparr>period = YMD (2024, 2, 2), total = 63, success = 0, warning = 0, fail = 63,
           trend = Num 57, trendDirection = Up\<rparr>]"
  by code_simp

lemma samples_valid: "all_valid sample_days" "all_valid sample_weeks" "all_valid sample_months"
  by code_simp+

section \<open>Trend percentage and direction\<close>

lemma js_gt0_percentChange:
  "0 < c \<Longrightarrow> js_gt0 (percentChange a b c) \<longleftrightarrow> b < a"
  by (simp add: percentChange_Num binary64_pos_iff zero_less_mult_iff zero_less_divide_iff)

lemma js_lt0_percentChange:
  "0 < c \<Longrightarrow> js_lt0 (percentChange a b c) \<longleftrightarrow> a < b"
  by (simp add: percentChange_Num binary64_neg_iff mult_less_0_iff divide_less_0_iff)

lemma Math_round_zero [simp]: "Math_round (Num 0) = Num 0"
proof -
  have "\<lfloor>(1::rat) / 2\<rfloor> = 0" by linarith
  then show ?thesis by simp
qed

lemma js_gt0_round: "js_gt0 (Math_round v) \<Longrightarrow> js_gt0 v"
proof (cases v)
  case (Num x)
  assume "js_gt0 (Math_round v)"
  with Num have "0 < \<lfloor>x + 1 / 2\<rfloor>" by simp
  then have "1 \<le> x + 1 / 2" by linarith
  with Num show ?thesis by simp
qed simp_all

lemma js_lt0_round: "js_lt0 (Math_round v) \<Longrightarrow> js_lt0 v"
proof (cases v)
  case (Num x)
  assume "js_lt0 (Math_round v)"
  with Num have "\<lfloor>x + 1 / 2\<rfloor> < 0" by simp
  then have "x + 1 / 2 < 0" by linarith
  with Num show ?thesis by simp
qed simp_all

text \<open>
  Claim C1, as the code has it.  In every bucket sequence that \<open>processedData\<close> returns, bucket 0
  has trend 0 and direction stable.  For a later bucket the trend is
  \<open>Math.round((total[i] - total[i-1]) / max(total[i-1], 1) * 100)\<close> at daily and monthly
  granularity, and at weekly granularity when the previous week is not empty; a weekly bucket
  that follows an empty week has trend 0.  The expression under \<open>Math.round\<close> is the
  double-precision value: the quotient rounded to a double, times 100, rounded to a double
  again.  \<open>Math.round\<close> takes that double to the nearest integer, a tie going up, so that the
  totals 40 and then 63 give 57 although the exact percentage is 57.5.
\<close>

theorem C1_trend_percent:
  assumes "processedData g data = Inr bs" and "i < length bs"
  shows "(i = 0 \<longrightarrow> trend (bs ! i) = Num 0 \<and> trendDirection (bs ! i) = Stable) \<and>
         (0 < i \<and> (g = Weekly \<longrightarrow> 0 < total (bs ! (i - 1))) \<longrightarrow>
            trend (bs ! i) =
              Math_round (Num (binary64 (binary64
                ((of_nat (total (bs ! i)) - of_nat (total (bs ! (i - 1))))
                   / of_nat (max (total (bs ! (i - 1))) 1)) * 100)))) \<and>
         (0 < i \<and> g = Weekly \<and> total (bs ! (i - 1)) = 0 \<longrightarrow> trend (bs ! i) = Num 0)"
proof -
  from assms obtain c where c: "bs ! i = withTrend c
           (if 0 < i \<and> (g = Weekly \<longrightarrow> 0 < total (bs ! (i - 1)))
            then percentChange (total c) (total (bs ! (i - 1))) (max (total (bs ! (i - 1))) 1)
            else Num 0)" (is "_ = withTrend c ?tr")
    using processedData_trend by blast
  have pos: "0 < max (total (bs ! (i - 1))) 1"
    by simp
  have tr: "trend (bs ! i) = Math_round ?tr"
    by (subst c) (rule trend_withTrend)
  have dir: "trendDirection (bs ! i) = (if js_gt0 ?tr then Up else if js_lt0 ?tr then Down else Stable)"
    by (subst c) (rule trendDirection_withTrend)
  have tot: "total (bs ! i) = total c"
    by (subst c) (rule total_withTrend)
  have zero: "i = 0 \<longrightarrow> trend (bs ! i) = Num 0 \<and> trendDirection (bs ! i) = Stable"
  proof
    assume "i = 0"
    then have "?tr = Num 0" by simp
    then show "trend (bs ! i) = Num 0 \<and> trendDirection (bs ! i) = Stable"
      unfolding tr dir by (simp only: Math_round_zero js_gt0.simps js_lt0.simps) simp
  qed
  have step: "0 < i \<and> (g = Weekly \<longrightarrow> 0 < total (bs ! (i - 1))) \<longrightarrow>
            trend (bs ! i) =
              Math_round (Num (binary64 (binary64
                ((of_nat (total (bs ! i)) - of_nat (total (bs ! (i - 1))))
                   / of_nat (max (total (bs ! (i - 1))) 1)) * 100)))"
  proof
    assume "0 < i \<and> (g = Weekly \<longrightarrow> 0 < total (bs ! (i - 1)))"
    then have "?tr = percentChange (total c) (total (bs ! (i - 1))) (max (total (bs ! (i - 1))) 1)"
      by (rule if_P)
    then show "trend (bs ! i) =
              Math_round (Num (binary64 (binary64
                ((of_nat (total (bs ! i)) - of_nat (total (bs ! (i - 1))))
                   / of_nat (max (total (bs ! (i - 1))) 1)) * 100)))"
      unfolding tr tot by (simp only: percentChange_Num [OF pos])
  qed
  have empty: "0 < i \<and> g = Weekly \<and> total (bs ! (i - 1)) = 0 \<longrightarrow> trend (bs ! i) = Num 0"
  proof
    assume "0 < i \<and> g = Weekly \<and> total (bs ! (i - 1)) = 0"
    then have "?tr = Num 0" by simp
    then show "trend (bs ! i) = Num 0"
      unfolding tr by (simp only: Math_round_zero)
  qed
  from zero step empty show ?thesis
    by (intro conjI)
qed

text \<open>
  The claim as stated fails at weekly granularity: with one event in the week of 2023-12-31, none
  in the week of 2024-01-07 and one in the week of 2024-01-14, the third bucket has total 1 after
  an empty bucket and trend 0, where the stated formula gives 100.
\<close>

theorem C1_counterexample:
  "processedData Weekly [ev (2024, 1, 1) ''login'' Success, ev (2024, 1, 15) ''login'' Success] =
     Inr [\<lparr>period = YMD (2023, 12, 31), total = 1, success = 1, warning = 0, fail = 0,
           trend = Num 0, trendDirection = Stable\<rparr>,
          \<lparr>period = YMD (2024, 1, 7), total = 0, success = 0, warning = 0, fail = 0,
           trend = Num (- 100), trendDirection = Down\<rparr>,
          \<lparr>period = YMD (2024, 1, 14), total = 1, success = 1, warning = 0, fail = 0,
           trend = Num 0, trendDirection = Stable\<rparr>] \<and>
   Math_round (Num (binary64 (binary64 ((of_nat 1 - of_nat 0) / of_nat (max 0 1)) * 100))) = Num 100"
  by code_simp

theorem C1_trend_percent_witness:
  "processedData Daily sample_days =
     Inr [\<lparr>period = YMD (2024, 1, 1), total = 2, success = 1, warning = 0, fail = 1,
           trend = Num 0, trendDirection = Stable\<rparr>,
          \<lparr>period = YMD (2024, 1, 3), total = 1, success = 0, warning = 1, fail = 0,
           trend = Num (- 50), trendDirection = Down\<rparr>] \<and>
   trend (projr (processedData Daily sample_days) ! 0) = Num 0 \<and>
   trendDirection (projr (processedData Daily sample_days) ! 0) = Stable \<and>
   trend (projr (processedData Daily sample_days) ! 1) =
     Math_round (Num (binary64 (binary64 ((of_nat 1 - of_nat 2) / of_nat (max 2 1)) * 100))) \<and>
   processedData Daily sample_rise =
     Inr [\<lparr>period = YMD (2024, 2, 1), total = 40, success = 40, warning = 0, fail = 0,
           trend = Num 0, trendDirection = Stable\<rparr>,
          \<lparr>period = YMD (2024, 2, 2), total = 63, success = 0, warning = 0, fail = 63,
           trend = Num 57, trendDirection = Up\<rparr>] \<and>
   Num 57 =
     Math_round (Num (binary64 (binary64 ((of_nat 63 - of_nat 40) / of_nat (max 40 1)) * 100))) \<and>
   processedData Weekly sample_weeks =
     Inr [\<lparr>period = YMD (2023, 12, 31), total = 1, success = 1, warning = 0, fail = 0,
           trend = Num 0, trendDirection = Stable\<rparr>,
          \<lparr>period = YMD (2024, 1, 7), total = 0, success = 0, warning = 0, fail = 0,
           trend = Num (- 100), trendDirection = Down\<rparr>,
          \<lparr>period = YMD (2024, 1, 14), total = 2, success = 1, warning = 0, fail = 1,
           trend = Num 0, trendDirection = Stable\<rparr>] \<and>
   trend (projr (processedData Weekly sample_weeks) ! 2) = Num 0"
proof -
  let ?b0 = "\<lparr>period = YMD (2024, 1, 1), total = 2, success = 1, warning = 0, fail = 1,
           trend = Num 0, trendDirection = Stable\<rparr>"
  let ?b1 = "\<lparr>period = YMD (2024, 1, 3), total = 1, success = 0, warning = 1, fail = 0,
           trend = Num (- 50), trendDirection = Down\<rparr>"
  let ?w0 = "\<lparr>period = YMD (2023, 12, 31), total = 1, success = 1, warning = 0, fail = 0,
           trend = Num 0, trendDirection = Stable\<rparr>"
  let ?w1 = "\<lparr>period = YMD (2024, 1, 7), total = 0, success = 0, warning = 0, fail = 0,
           trend = Num (- 100), trendDirection = Down\<rparr>"
  let ?w2 = "\<lparr>period = YMD (2024, 1, 14), total = 2, success = 1, warning = 0, fail = 1,
           trend = Num 0, trendDirection = Stable\<rparr>"
  let ?r0 = "\<lparr>period = YMD (2024, 2, 1), total = 40, success = 40, warning = 0, fail = 0,
           trend = Num 0, trendDirection = Stable\<rparr>"
  let ?r1 = "\<lparr>period = YMD (2024, 2, 2), total = 63, success = 0, warning = 0, fail = 63,
           trend = Num 57, trendDirection = Up\<rparr>"
  have runD: "processedData Daily sample_days = Inr [?b0, ?b1]"
    by (rule daily_example)
  have runR: "processedData Daily sample_rise = Inr [?r0, ?r1]"
    by (rule rise_example)
  have runW: "processedData Weekly sample_weeks = Inr [?w0, ?w1, ?w2]"
    by (rule weekly_example)
  have selD: "projr (processedData Daily sample_days) = [?b0, ?b1]"
    by (simp only: runD sum.sel)
  have selW: "projr (processedData Weekly sample_weeks) = [?w0, ?w1, ?w2]"
    by (simp only: runW sum.sel)
  have first: "trend ([?b0, ?b1] ! 0) = Num 0 \<and> trendDirection ([?b0, ?b1] ! 0) = Stable"
    using C1_trend_percent [OF runD, of 0] by simp
  have "trend ([?b0, ?b1] ! 1) =
       Math_round (Num (binary64 (binary64
         ((of_nat (total ([?b0, ?b1] ! 1)) - of_nat (total ([?b0, ?b1] ! (1 - 1))))
            / of_nat (max (total ([?b0, ?b1] ! (1 - 1))) 1)) * 100)))"
    using C1_trend_percent [OF runD, of 1] by simp
  then have later: "trend ([?b0, ?b1] ! 1) =
       Math_round (Num (binary64 (binary64 ((of_nat 1 - of_nat 2) / of_nat (max 2 1)) * 100)))"
    by simp
  have "trend ([?r0, ?r1] ! 1) =
       Math_round (Num (binary64 (binary64
         ((of_nat (total ([?r0, ?r1] ! 1)) - of_nat (total ([?r0, ?r1] ! (1 - 1))))
            / of_nat (max (total ([?r0, ?r1] ! (1 - 1))) 1)) * 100)))"
    using C1_trend_percent [OF runR, of 1] by simp
  then have rise: "Num 57 =
       Math_round (Num (binary64 (binary64 ((of_nat 63 - of_nat 40) / of_nat (max 40 1)) * 100)))"
    by simp
  have empty: "trend ([?w0, ?w1, ?w2] ! 2) = Num 0"
    using C1_trend_percent [OF runW, of 2] by simp
  show ?thesis
    unfolding selD selW using runD runR runW first later rise empty by (intro conjI) blast+
qed

text \<open>
  Claim C4, as the code has it.  The direction is taken from the sign of the percentage before
  rounding: a later bucket is up when its total is above the previous total, down when it is
  below, and stable when they are equal; bucket 0, and a weekly bucket that follows an empty
  week, are stable.  So a positive rounded trend goes with up and a negative one with down,
  but a rounded trend of 0 does not decide the direction.
\<close>

theorem C4_trend_direction:
  assumes "processedData g data = Inr bs" and "i < length bs"
  shows "trendDirection (bs ! i) =
           (if 0 < i \<and> (g = Weekly \<longrightarrow> 0 < total (bs ! (i - 1)))
            then (if total (bs ! (i - 1)) < total (bs ! i) then Up
                  else if total (bs ! i) < total (bs ! (i - 1)) then Down else Stable)
            else Stable) \<and>
         (js_gt0 (trend (bs ! i)) \<longrightarrow> trendDirection (bs ! i) = Up) \<and>
         (js_lt0 (trend (bs ! i)) \<longrightarrow> trendDirection (bs ! i) = Down)"
proof -
  from assms obtain c where c: "bs ! i = withTrend c
           (if 0 < i \<and> (g = Weekly \<longrightarrow> 0 < total (bs ! (i - 1)))
            then percentChange (total c) (total (bs ! (i - 1))) (max (total (bs ! (i - 1))) 1)
            else Num 0)" (is "_ = withTrend c ?tr")
    using processedData_trend by blast
  have pos: "0 < max (total (bs ! (i - 1))) 1"
    by simp
  have dir: "trendDirection (bs ! i) = (if js_gt0 ?tr then Up else if js_lt0 ?tr then Down else Stable)"
    by (subst c) (rule trendDirection_withTrend)
  have tr: "trend (bs ! i) = Math_round ?tr"
    by (subst c) (rule trend_withTrend)
  have tot: "total (bs ! i) = total c"
    by (subst c) (rule total_withTrend)
  have first: "trendDirection (bs ! i) =
           (if 0 < i \<and> (g = Weekly \<longrightarrow> 0 < total (bs ! (i - 1)))
            then (if total (bs ! (i - 1)) < total (bs ! i) then Up
                  else if total (bs ! i) < total (bs ! (i - 1)) then Down else Stable)
            else Stable)"
  proof (cases "0 < i \<and> (g = Weekly \<longrightarrow> 0 < total (bs ! (i - 1)))")
    case True
    then have "?tr = percentChange (total c) (total (bs ! (i - 1))) (max (total (bs ! (i - 1))) 1)"
      by (rule if_P)
    then have "trendDirection (bs ! i) =
        (if total (bs ! (i - 1)) < total c then Up
         else if total c < total (bs ! (i - 1)) then Down else Stable)"
      unfolding dir by (simp only: js_gt0_percentChange [OF pos] js_lt0_percentChange [OF pos])
    with True show ?thesis
      unfolding tot by simp
  next
    case False
    then have "?tr = Num 0"
      by (rule if_not_P)
    then have "trendDirection (bs ! i) = Stable"
      unfolding dir by simp
    with False show ?thesis
      by auto
  qed
  have up: "js_gt0 (trend (bs ! i)) \<longrightarrow> trendDirection (bs ! i) = Up"
    unfolding dir tr using js_gt0_round by auto
  have down: "js_lt0 (trend (bs ! i)) \<longrightarrow> trendDirection (bs ! i) = Down"
  proof
    assume "js_lt0 (trend (bs ! i))"
    then have lt: "js_lt0 ?tr"
      unfolding tr by (rule js_lt0_round)
    then have "\<not> js_gt0 ?tr"
      by (cases ?tr) simp_all
    with lt show "trendDirection (bs ! i) = Down"
      unfolding dir by simp
  qed
  from first up down show ?thesis by simp
qed

text \<open>
  The claim as stated fails: with 201 events on one day and 202 on the next, the percentage is
  100 / 201, which rounds to 0, and the direction is up.
\<close>

theorem C4_counterexample:
  "processedData Daily
     (replicate 201 (ev (2024, 1, 1) ''login'' Success) @
      replicate 202 (ev (2024, 1, 2) ''login'' Success)) =
     Inr [\<lparr>period = YMD (2024, 1, 1), total = 201, success = 201, warning = 0, fail = 0,
           trend = Num 0, trendDirection = Stable\<rparr>,
          \<lparr>period = YMD (2024, 1, 2), total = 202, success = 202, warning = 0, fail = 0,
           trend = Num 0, trendDirection = Up\<rparr>]"
  by code_simp

theorem C4_trend_direction_witness:
  "processedData Monthly sample_months =
     Inr [\<lparr>period = YM (2024, 1), total = 1, success = 1, warning = 0, fail = 0,
           trend = Num 0, trendDirection = Stable\<rparr>,
          \<lparr>period = YM (2024, 3), total = 2, success = 0, warning = 1, fail = 1,
           trend = Num 100, trendDirection = Up\<rparr>] \<and>
   js_gt0 (trend (projr (processedData Monthly sample_months) ! 1)) \<and>
   trendDirection (projr (processedData Monthly sample_months) ! 1) = Up \<and>
   processedData Daily sample_days =
     Inr [\<lparr>period = YMD (2024, 1, 1), total = 2, success = 1, warning = 0, fail = 1,
           trend = Num 0, trendDirection = Stable\<rparr>,
          \<lparr>period = YMD (2024, 1, 3), total = 1, success = 0, warning = 1, fail = 0,
           trend = Num (- 50), trendDirection = Down\<rparr>] \<and>
   js_lt0 (trend (projr (processedData Daily sample_days) ! 1)) \<and>
   trendDirection (projr (processedData Daily sample_days) ! 1) = Down"
proof -
  let ?m0 = "\<lparr>period = YM (2024, 1), total = 1, success = 1, warning = 0, fail = 0,
           trend = Num 0, trendDirection = Stable\<rparr>"
  let ?m1 = "\<lparr>period = YM (2024, 3), total = 2, success = 0, warning = 1, fail = 1,
           trend = Num 100, trendDirection = Up\<rparr>"
  let ?b0 = "\<lparr>period = YMD (2024, 1, 1), total = 2, success = 1, warning = 0, fail = 1,
           trend = Num 0, trendDirection = Stable\<rparr>"
  let ?b1 = "\<lparr>period = YMD (2024, 1, 3), total = 1, success = 0, warning = 1, fail = 0,
           trend = Num (- 50), trendDirection = Down\<rparr>"
  have runM: "processedData Monthly sample_months = Inr [?m0, ?m1]"
    by (rule monthly_example)
  have runD: "processedData Daily sample_days = Inr [?b0, ?b1]"
    by (rule daily_example)
  have selM: "projr (processedData Monthly sample_months) = [?m0, ?m1]"
    by (simp only: runM sum.sel)
  have selD: "projr (processedData Daily sample_days) = [?b0, ?b1]"
    by (simp only: runD sum.sel)
  have pos: "js_gt0 (trend ([?m0, ?m1] ! 1))"
    by simp
  have neg: "js_lt0 (trend ([?b0, ?b1] ! 1))"
    by simp
  from C4_trend_direction [OF runM, of 1] pos have up: "trendDirection ([?m0, ?m1] ! 1) = Up"
    by simp
  from C4_trend_direction [OF runD, of 1] neg have down: "trendDirection ([?b0, ?b1] ! 1) = Down"
    by simp
  show ?thesis
    unfolding selM selD using runM pos up runD neg down by (intro conjI)
qed

section \<open>Bucket keys and totals\<close>

lemma count_partition:
  assumes "distinct ks" and "\<forall>x\<in>set xs. key x \<in> set ks"
  shows "sum_list (map (\<lambda>k. length (filter (\<lambda>x. key x = k) xs)) ks) = length xs"
  using assms(2)
proof (induction xs)
  case Nil
  show ?case by simp
next
  case (Cons x xs)
  have one: "sum_list (map (\<lambda>k. if key x = k then 1 else 0) ks) = (1::nat)"
  proof -
    have "sum_list (map (\<lambda>k. if key x = k then 1 else 0) ks)
        = (\<Sum>k\<in>set ks. if key x = k then 1 else (0::nat))"
      using assms(1) by (rule sum_list_distinct_conv_sum_set)
    also have "\<dots> = (if key x \<in> set ks then 1 else 0)"
      by simp
    finally show ?thesis
      using Cons.prems by simp
  qed
  have "sum_list (map (\<lambda>k. length (filter (\<lambda>x. key x = k) (x # xs))) ks)
      = sum_list (map (\<lambda>k. (if key x = k then 1 else 0) + length (filter (\<lambda>x. key x = k) xs)) ks)"
    by (intro arg_cong [where f = sum_list] map_cong) auto
  also have "\<dots> = sum_list (map (\<lambda>k. if key x = k then 1 else 0) ks)
      + sum_list (map (\<lambda>k. length (filter (\<lambda>x. key x = k) xs)) ks)"
    by (rule sum_list_addf)
  also have "\<dots> = 1 + length xs"
    using Cons one by simp
  finally show ?case by simp
qed

lemma map_tabulate: "map (\<lambda>i. f (xs ! i)) [0..<length xs] = map f xs"
proof -
  have "map (\<lambda>i. f (xs ! i)) [0..<length xs] = map f (map ((!) xs) [0..<length xs])"
    by simp
  then show ?thesis
    by (simp only: map_nth)
qed

lemma totals_daily:
  assumes "processedData Daily data = Inr bs"
  shows "map total bs = map (\<lambda>d. length (eventsOn data d)) (dates_of data)"
    and "map period bs = map YMD (dates_of data)"
proof -
  let ?ds = "dates_of data"
  let ?h = "\<lambda>i. withTrend (tallyOf (YMD (?ds ! i)) (eventsOn data (?ds ! i)))
                   (if 0 < i
                    then percentChange (length (eventsOn data (?ds ! i)))
                           (length (eventsOn data (?ds ! (i - 1))))
                           (max (length (eventsOn data (?ds ! (i - 1)))) 1)
                    else Num 0)"
  from assms have bs: "bs = map ?h [0..<length ?ds]"
    by (simp add: processedData_def processedDaily_cases split: if_splits)
  have "map total bs = map (\<lambda>i. length (eventsOn data (?ds ! i))) [0..<length ?ds]"
    unfolding bs by simp
  then show "map total bs = map (\<lambda>d. length (eventsOn data d)) ?ds"
    using map_tabulate [of "\<lambda>d. length (eventsOn data d)" ?ds] by simp
  have "map period bs = map (\<lambda>i. YMD (?ds ! i)) [0..<length ?ds]"
    unfolding bs by simp
  then show "map period bs = map YMD ?ds"
    using map_tabulate [of YMD ?ds] by simp
qed

lemma totals_monthly:
  assumes "processedData Monthly data = Inr bs"
  shows "map total bs = map (\<lambda>m. length (eventsInMonth data m)) (months_of data)"
    and "map period bs = map YM (months_of data)"
proof -
  let ?ms = "months_of data"
  let ?h = "\<lambda>i. withTrend (tallyOf (YM (?ms ! i)) (eventsInMonth data (?ms ! i)))
                   (if 0 < i
                    then percentChange (length (eventsInMonth data (?ms ! i)))
                           (length (eventsInMonth data (?ms ! (i - 1))))
                           (length (eventsInMonth data (?ms ! (i - 1))))
                    else Num 0)"
  from assms have bs: "bs = map ?h [0..<length ?ms]"
    by (simp add: processedData_def processedMonthly_cases split: if_splits)
  have "map total bs = map (\<lambda>i. length (eventsInMonth data (?ms ! i))) [0..<length ?ms]"
    unfolding bs by simp
  then show "map total bs = map (\<lambda>m. length (eventsInMonth data m)) ?ms"
    using map_tabulate [of "\<lambda>m. length (eventsInMonth data m)" ?ms] by simp
  have "map period bs = map (\<lambda>i. YM (?ms ! i)) [0..<length ?ms]"
    unfolding bs by simp
  then show "map period bs = map YM ?ms"
    using map_tabulate [of YM ?ms] by simp
qed

lemma processedData_Daily_total: "all_valid data \<Longrightarrow> \<exists>bs. processedData Daily data = Inr bs"
  by (simp add: processedData_def processedDaily_cases)

lemma processedData_Monthly_total: "all_valid data \<Longrightarrow> \<exists>bs. processedData Monthly data = Inr bs"
  by (simp add: processedData_def processedMonthly_cases)

lemma sum_totals_daily:
  assumes "processedData Daily data = Inr bs"
  shows "sum_list (map total bs) = length data"
proof -
  have "sum_list (map (\<lambda>d. length (filter (\<lambda>e. date e = d) data)) (dates_of data)) = length data"
    by (rule count_partition) (simp_all add: distinct_dates_of set_dates_of)
  then show ?thesis
    by (simp add: totals_daily(1) [OF assms] eventsOn_def)
qed

lemma sum_totals_monthly:
  assumes "processedData Monthly data = Inr bs"
  shows "sum_list (map total bs) = length data"
proof -
  have "sum_list (map (\<lambda>m. length (filter (\<lambda>e. month_key (date e) = m) data)) (months_of data))
      = length data"
    by (rule count_partition) (simp_all add: distinct_months_of set_months_of)
  then show ?thesis
    by (simp add: totals_monthly(1) [OF assms] eventsInMonth_def)
qed

lemma trend_finite:
  assumes "processedData g data = Inr bs" and "i < length bs"
  shows "\<exists>r. trend (bs ! i) = Num r"
proof -
  from assms obtain c where c: "bs ! i = withTrend c
           (if 0 < i \<and> (g = Weekly \<longrightarrow> 0 < total (bs ! (i - 1)))
            then percentChange (total c) (total (bs ! (i - 1))) (max (total (bs ! (i - 1))) 1)
            else Num 0)" (is "_ = withTrend c ?tr")
    using processedData_trend by blast
  have pos: "0 < max (total (bs ! (i - 1))) 1"
    by simp
  have "\<exists>x. ?tr = Num x"
    by (simp only: percentChange_Num [OF pos] if_distrib [of "\<lambda>v. \<exists>x. v = Num x"]) simp
  then obtain x where "?tr = Num x" ..
  then have "trend (bs ! i) = Math_round (Num x)"
    by (subst c) (simp only: trend_withTrend)
  then show ?thesis
    by simp
qed

text \<open>
  Claim C2, as the code has it.  At daily granularity the bucket sequence has one bucket per
  distinct event date, in ascending order of the dates; the total of a bucket is the number of
  events of its date, which is at least 1.  Days on which nothing happened have no bucket.
\<close>

theorem C2_daily_buckets:
  assumes "all_valid data"
  shows "\<exists>bs. processedData Daily data = Inr bs \<and>
           map period bs = map YMD (dates_of data) \<and>
           map total bs = map (\<lambda>d. length (eventsOn data d)) (dates_of data) \<and>
           (\<forall>b\<in>set bs. 1 \<le> total b) \<and>
           sorted (dates_of data) \<and> distinct (dates_of data) \<and>
           set (dates_of data) = date ` set data"
proof -
  from assms obtain bs where bs: "processedData Daily data = Inr bs"
    using processedData_Daily_total by blast
  have tot: "map total bs = map (\<lambda>d. length (eventsOn data d)) (dates_of data)"
    using bs by (rule totals_daily(1))
  have "\<forall>n\<in>set (map total bs). 1 \<le> n"
  proof
    fix n assume "n \<in> set (map total bs)"
    then obtain d where "d \<in> set (dates_of data)" "n = length (eventsOn data d)"
      unfolding tot by auto
    then show "1 \<le> n"
      using eventsOn_nonempty [of d data] by (simp add: set_dates_of Suc_leI)
  qed
  then have pos: "\<forall>b\<in>set bs. 1 \<le> total b"
    by simp
  from bs tot pos totals_daily(2) [OF bs] show ?thesis
    by (auto simp: sorted_dates_of distinct_dates_of set_dates_of)
qed

text \<open>
  The claim as stated fails: three events on 2024-01-01, none on 2024-01-02 and one on 2024-01-03
  give two daily buckets, not three; there is no bucket for 2024-01-02, and the trend of the
  second bucket compares 2024-01-03 with 2024-01-01.
\<close>

theorem C2_counterexample:
  "processedData Daily
     [ev (2024, 1, 1) ''login'' Success, ev (2024, 1, 1) ''login'' Success,
      ev (2024, 1, 1) ''login'' Fail, ev (2024, 1, 3) ''login'' Warning] =
     Inr [\<lparr>period = YMD (2024, 1, 1), total = 3, success = 2, warning = 0, fail = 1,
           trend = Num 0, trendDirection = Stable\<rparr>,
          \<lparr>period = YMD (2024, 1, 3), total = 1, success = 0, warning = 1, fail = 0,
           trend = Num (- 67), trendDirection = Down\<rparr>]"
  by code_simp

theorem C2_daily_buckets_witness:
  "all_valid sample_days \<and>
   (\<exists>bs. processedData Daily sample_days = Inr bs \<and>
         map period bs = [YMD (2024, 1, 1), YMD (2024, 1, 3)] \<and> map total bs = [2, 1])"
proof -
  have valid: "all_valid sample_days"
    by (rule samples_valid)
  have dates: "dates_of sample_days = [(2024, 1, 1), (2024, 1, 3)]"
    by code_simp
  have counts: "map (\<lambda>d. length (eventsOn sample_days d)) [(2024, 1, 1), (2024, 1, 3)] = [2, 1]"
    by code_simp
  from C2_daily_buckets [OF valid] obtain bs where
    "processedData Daily sample_days = Inr bs"
    "map period bs = map YMD (dates_of sample_days)"
    "map total bs = map (\<lambda>d. length (eventsOn sample_days d)) (dates_of sample_days)"
    by blast
  then have "processedData Daily sample_days = Inr bs \<and>
         map period bs = [YMD (2024, 1, 1), YMD (2024, 1, 3)] \<and> map total bs = [2, 1]"
    unfolding dates counts by simp
  then have "\<exists>bs. processedData Daily sample_days = Inr bs \<and>
         map period bs = [YMD (2024, 1, 1), YMD (2024, 1, 3)] \<and> map total bs = [2, 1]"
    by (rule exI)
  with valid show ?thesis
    by (rule conjI)
qed

text \<open>
  Claim C9.  When every event has a parseable date, monthly aggregation returns buckets, each
  with a total of at least 1; so the divisor \<open>previous.total\<close> of the monthly trend is never 0
  and every trend is a finite number.
\<close>

theorem C9_monthly_totals_positive:
  assumes "all_valid data"
  shows "\<exists>bs. processedData Monthly data = Inr bs \<and>
           (\<forall>b\<in>set bs. 1 \<le> total b) \<and>
           (\<forall>i<length bs. \<exists>r. trend (bs ! i) = Num r)"
proof -
  from assms obtain bs where bs: "processedData Monthly data = Inr bs"
    using processedData_Monthly_total by blast
  have tot: "map total bs = map (\<lambda>m. length (eventsInMonth data m)) (months_of data)"
    using bs by (rule totals_monthly(1))
  have "\<forall>n\<in>set (map total bs). 1 \<le> n"
  proof
    fix n assume "n \<in> set (map total bs)"
    then obtain m where "m \<in> set (months_of data)" "n = length (eventsInMonth data m)"
      unfolding tot by auto
    then show "1 \<le> n"
      using eventsInMonth_nonempty [of m data] by (simp add: set_months_of Suc_leI)
  qed
  then have pos: "\<forall>b\<in>set bs. 1 \<le> total b"
    by simp
  have fin: "\<forall>i<length bs. \<exists>r. trend (bs ! i) = Num r"
  proof (intro allI impI)
    fix i assume i: "i < length bs"
    with bs show "\<exists>r. trend (bs ! i) = Num r"
      by (rule trend_finite)
  qed
  from bs pos fin show ?thesis
    by blast
qed

theorem C9_monthly_totals_positive_witness:
  "all_valid sample_months \<and>
   processedData Monthly sample_months =
     Inr [\<lparr>period = YM (2024, 1), total = 1, success = 1, warning = 0, fail = 0,
           trend = Num 0, trendDirection = Stable\<rparr>,
          \<lparr>period = YM (2024, 3), total = 2, success = 0, warning = 1, fail = 1,
           trend = Num 100, trendDirection = Up\<rparr>] \<and>
   1 \<le> total (projr (processedData Monthly sample_months) ! 0) \<and>
   1 \<le> total (projr (processedData Monthly sample_months) ! 1)"
proof -
  let ?m0 = "\<lparr>period = YM (2024, 1), total = 1, success = 1, warning = 0, fail = 0,
           trend = Num 0, trendDirection = Stable\<rparr>"
  let ?m1 = "\<lparr>period = YM (2024, 3), total = 2, success = 0, warning = 1, fail = 1,
           trend = Num 100, trendDirection = Up\<rparr>"
  have valid: "all_valid sample_months"
    by (rule samples_valid)
  have run: "processedData Monthly sample_months = Inr [?m0, ?m1]"
    by (rule monthly_example)
  have sel: "projr (processedData Monthly sample_months) = [?m0, ?m1]"
    by (simp only: run sum.sel)
  from C9_monthly_totals_positive [OF valid] obtain bs where
    bs: "processedData Monthly sample_months = Inr bs" and pos: "\<forall>b\<in>set bs. 1 \<le> total b"
    by blast
  from bs run have "bs = [?m0, ?m1]"
    by simp
  with pos have "1 \<le> total ([?m0, ?m1] ! 0)" "1 \<le> total ([?m0, ?m1] ! 1)"
    by simp_all
  with valid run show ?thesis
    unfolding sel by (intro conjI)
qed

text \<open>
  Claim C3 on the code.  For the empty collection the heat map returns no cells at every
  granularity, and daily and monthly aggregation return no buckets; weekly aggregation of the bar
  graph throws instead: \<open>dates[0]\<close> is \<open>undefined\<close>, both interval ends are the Invalid Date, and
  \<open>eachWeekOfInterval\<close> rejects the interval.
\<close>

theorem C3_empty_input:
  "processedData Daily [] = Inr [] \<and> processedData Monthly [] = Inr [] \<and>
   processedData Weekly [] = Inl InvalidInterval \<and>
   gridData Daily [] = Inr [] \<and> gridData Weekly [] = Inr [] \<and> gridData Monthly [] = Inr []"
  by code_simp

section \<open>Day numbers follow the order of the dates\<close>

lemma calendar_samples:
  "day_number (1970, 1, 1) = 0"
  "day_number (2000, 3, 1) = 11017"
  "getDay (day_number (2024, 2, 29)) = 4"
  "format_ymd (day_number (2023, 12, 31)) = (2023, 12, 31)"
  "format_ymd (day_number (2024, 2, 29)) = (2024, 2, 29)"
  "format_ymd (day_number (2100, 3, 1)) = (2100, 3, 1)"
  "format_ymd (day_number (0, 1, 1)) = (1, 1, 1)"
  "format_ymd (day_number (1, 1, 1)) = (1, 1, 1)"
  "month_key (0, 5, 1) = month_key (1, 5, 1)"
  "format_ymd (day_number (9999, 12, 31)) = (9999, 12, 31)"
  by code_simp+

lemma ceil_div_step:
  fixes y c :: int
  assumes "0 < c"
  shows "(y + c) div c = (y + (c - 1)) div c + (if y mod c = 0 then 1 else 0)"
proof -
  let ?q = "y div c" and ?r = "y mod c"
  have y: "y = c * ?q + ?r" by simp
  have r: "0 \<le> ?r" "?r < c" using assms by simp_all
  have lhs: "(y + c) div c = ?q + 1"
    using assms by simp
  show ?thesis
  proof (cases "?r = 0")
    case True
    have "y + (c - 1) = c * ?q + (c - 1)"
      using y True by simp
    then have "(y + (c - 1)) div c = ?q"
      using assms by (intro int_div_pos_eq [where r = "c - 1"]) simp_all
    with lhs True show ?thesis by simp
  next
    case False
    have "y + (c - 1) = c * (?q + 1) + (?r - 1)"
      using y by (simp add: algebra_simps)
    then have "(y + (c - 1)) div c = ?q + 1"
      using r False by (intro int_div_pos_eq [where r = "?r - 1"]) simp_all
    with lhs False show ?thesis by simp
  qed
qed

lemma mod_400_100: "(y::int) mod 400 = 0 \<Longrightarrow> y mod 100 = 0"
  by presburger

lemma mod_100_4: "(y::int) mod 100 = 0 \<Longrightarrow> y mod 4 = 0"
  by presburger

lemma days_before_year_Suc: "days_before_year (y + 1) = days_before_year y + year_length y"
proof -
  have a: "(y + 1 + 3) div 4 = (y + 3) div 4 + (if y mod 4 = 0 then 1 else 0)"
    using ceil_div_step [of 4 y] by (simp add: add.assoc)
  have b: "(y + 1 + 99) div 100 = (y + 99) div 100 + (if y mod 100 = 0 then 1 else 0)"
    using ceil_div_step [of 100 y] by (simp add: add.assoc)
  have c: "(y + 1 + 399) div 400 = (y + 399) div 400 + (if y mod 400 = 0 then 1 else 0)"
    using ceil_div_step [of 400 y] by (simp add: add.assoc)
  show ?thesis
    unfolding days_before_year_def year_length_def isLeapYear_def a b c
    using mod_400_100 [of y] mod_100_4 [of y] by (auto simp: algebra_simps)
qed

lemma days_before_year_mono_aux: "days_before_year y + year_length y \<le> days_before_year (y + 1 + int k)"
proof (induction k)
  case 0
  show ?case by (simp add: days_before_year_Suc)
next
  case (Suc k)
  have "days_before_year (y + 1 + int (Suc k)) = days_before_year ((y + 1 + int k) + 1)"
    by (simp add: add.assoc add.commute)
  also have "\<dots> = days_before_year (y + 1 + int k) + year_length (y + 1 + int k)"
    by (rule days_before_year_Suc)
  finally show ?case
    using Suc by (simp add: year_length_def)
qed

lemma days_before_year_less:
  assumes "y1 < y2"
  shows "days_before_year y1 + year_length y1 \<le> days_before_year y2"
proof -
  from assms obtain k where "y2 = y1 + 1 + int k"
    by (metis add.assoc zless_iff_Suc_zadd of_nat_Suc)
  then show ?thesis
    by (simp only: days_before_year_mono_aux)
qed

lemma daysInMonth_pos: "28 \<le> daysInMonth y m"
  by (simp add: daysInMonth_def)

lemma days_before_month_Suc:
  "1 \<le> m \<Longrightarrow> days_before_month y (m + 1) = days_before_month y m + daysInMonth y m"
  by (simp add: days_before_month_def upto_rec2)

lemma days_before_month_13: "days_before_month y 13 = year_length y"
  by (simp add: days_before_month_def daysInMonth_def year_length_def upto_rec1)

lemma days_before_month_mono_aux:
  "1 \<le> m \<Longrightarrow> days_before_month y m \<le> days_before_month y (m + int k)"
proof (induction k)
  case 0
  show ?case by simp
next
  case (Suc k)
  have "days_before_month y (m + int (Suc k)) = days_before_month y ((m + int k) + 1)"
    by (simp add: algebra_simps)
  also have "\<dots> = days_before_month y (m + int k) + daysInMonth y (m + int k)"
    using Suc.prems by (intro days_before_month_Suc) simp
  finally show ?case
    using Suc daysInMonth_pos [of y "m + int k"] by simp
qed

lemma days_before_month_mono:
  assumes "1 \<le> m" and "m \<le> m'"
  shows "days_before_month y m \<le> days_before_month y m'"
proof -
  from assms(2) obtain k where "m' = m + int k"
    by (metis zle_iff_zadd)
  with assms(1) show ?thesis
    by (simp only: days_before_month_mono_aux)
qed

lemma days_before_month_nonneg: "1 \<le> m \<Longrightarrow> 0 \<le> days_before_month y m"
  using days_before_month_mono [of 1 m y] by (simp add: days_before_month_def)

lemma day_of_year_bounds:
  assumes "valid_date (y, m, d)"
  shows "1 \<le> days_before_month y m + d" and "days_before_month y m + d \<le> year_length y"
proof -
  from assms have m: "1 \<le> m" "m \<le> 12" and d: "1 \<le> d" "d \<le> daysInMonth y m"
    by (simp_all add: valid_date_def)
  from m(1) d(1) show "1 \<le> days_before_month y m + d"
    using days_before_month_nonneg [of m y] by simp
  have "days_before_month y m + d \<le> days_before_month y (m + 1)"
    using m(1) d(2) by (simp add: days_before_month_Suc)
  also have "\<dots> \<le> days_before_month y 13"
    using m by (intro days_before_month_mono) simp_all
  finally show "days_before_month y m + d \<le> year_length y"
    by (simp only: days_before_month_13)
qed

lemma day_number_mono:
  assumes "valid_date a" and "valid_date b" and "a \<le> b"
  shows "day_number a \<le> day_number b"
proof -
  obtain y1 m1 d1 where a: "a = (y1, m1, d1)" by (cases a)
  obtain y2 m2 d2 where b: "b = (y2, m2, d2)" by (cases b)
  from assms(3) consider "y1 < y2" | "y1 = y2" "m1 < m2" | "y1 = y2" "m1 = m2" "d1 \<le> d2"
    unfolding a b by (auto simp: less_eq_prod_def less_prod_def order.order_iff_strict)
  then show ?thesis
  proof cases
    case 1
    have "days_before_month y1 m1 + d1 \<le> year_length y1"
      using assms(1) unfolding a by (rule day_of_year_bounds(2))
    moreover have "days_before_year y1 + year_length y1 \<le> days_before_year y2"
      using 1 by (rule days_before_year_less)
    moreover have "1 \<le> days_before_month y2 m2 + d2"
      using assms(2) unfolding b by (rule day_of_year_bounds(1))
    ultimately show ?thesis
      unfolding a b by (simp add: day_number_def)
  next
    case 2
    from assms(1) have m1: "1 \<le> m1" and d1: "d1 \<le> daysInMonth y1 m1"
      unfolding a by (simp_all add: valid_date_def)
    from assms(2) have d2: "1 \<le> d2"
      unfolding b by (simp add: valid_date_def)
    have "days_before_month y1 m1 + d1 \<le> days_before_month y1 (m1 + 1)"
      using m1 d1 by (simp add: days_before_month_Suc)
    also have "\<dots> \<le> days_before_month y1 m2"
      using m1 2(2) by (intro days_before_month_mono) simp_all
    finally show ?thesis
      unfolding a b using 2(1) d2 by (simp add: day_number_def)
  next
    case 3
    then show ?thesis
      unfolding a b by (simp add: day_number_def)
  qed
qed

section \<open>The weeks of a collection\<close>

lemma week_loop_mem:
  "w \<in> set (week_loop s e) \<longleftrightarrow> s \<le> w \<and> w \<le> e \<and> (w - s) mod 7 = 0"
proof (induction s e rule: week_loop.induct)
  case (1 s e)
  show ?case
  proof (cases "s \<le> e")
    case False
    then show ?thesis
      by (subst week_loop.simps) auto
  next
    case True
    have "w - (s + 7) = (w - s) - 7"
      by simp
    then have step: "(w - (s + 7)) mod 7 = (w - s) mod 7"
      by (simp only: minus_mod_self2)
    have "w \<in> set (week_loop s e) \<longleftrightarrow> w = s \<or> w \<in> set (week_loop (s + 7) e)"
      using True by (subst week_loop.simps) simp
    also have "\<dots> \<longleftrightarrow> w = s \<or> (s + 7 \<le> w \<and> w \<le> e \<and> (w - s) mod 7 = 0)"
      using 1 True by (simp add: step)
    also have "\<dots> \<longleftrightarrow> s \<le> w \<and> w \<le> e \<and> (w - s) mod 7 = 0"
      using True by presburger
    finally show ?thesis .
  qed
qed

lemma distinct_week_loop: "distinct (week_loop s e)"
proof (induction s e rule: week_loop.induct)
  case (1 s e)
  show ?case
  proof (cases "s \<le> e")
    case False
    then show ?thesis
      by (subst week_loop.simps) simp
  next
    case True
    have "s \<notin> set (week_loop (s + 7) e)"
      by (simp add: week_loop_mem)
    with 1 True show ?thesis
      by (subst week_loop.simps) simp
  qed
qed

lemma startOfWeek_bounds: "startOfWeek t \<le> t" "t \<le> startOfWeek t + 6"
  unfolding startOfWeek_def getDay_def by presburger+

lemma startOfWeek_sunday: "(startOfWeek t + 4) mod 7 = 0"
  unfolding startOfWeek_def getDay_def by presburger

lemma startOfWeek_mono: "s \<le> t \<Longrightarrow> startOfWeek s \<le> startOfWeek t"
  unfolding startOfWeek_def getDay_def by presburger

lemma startOfWeek_fix: "(w + 4) mod 7 = 0 \<Longrightarrow> startOfWeek w = w"
  unfolding startOfWeek_def getDay_def by simp

lemma getDay_in_week:
  assumes "(w + 4) mod 7 = 0" and "w \<le> t" and "t \<le> w + 6"
  shows "getDay t = t - w"
proof -
  have "t + 4 = (w + 4) + (t - w)"
    by simp
  then have "(t + 4) mod 7 = ((w + 4) + (t - w)) mod 7"
    by (rule arg_cong)
  also have "\<dots> = ((w + 4) mod 7 + (t - w)) mod 7"
    by (simp only: mod_add_left_eq)
  also have "\<dots> = (t - w) mod 7"
    using assms(1) by simp
  also have "\<dots> = t - w"
    using assms(2,3) by simp
  finally show ?thesis
    by (simp add: getDay_def)
qed

lemma in_window_iff:
  assumes "(w + 4) mod 7 = 0"
  shows "startOfWeek w \<le> t \<and> t \<le> endOfWeek w \<longleftrightarrow> startOfWeek t = w"
proof
  assume "startOfWeek w \<le> t \<and> t \<le> endOfWeek w"
  then have "w \<le> t" "t \<le> w + 6"
    by (simp_all add: endOfWeek_def startOfWeek_fix [OF assms])
  with assms have "getDay t = t - w"
    by (rule getDay_in_week)
  then show "startOfWeek t = w"
    by (simp add: startOfWeek_def)
next
  assume "startOfWeek t = w"
  with startOfWeek_bounds [of t] show "startOfWeek w \<le> t \<and> t \<le> endOfWeek w"
    by (simp add: endOfWeek_def startOfWeek_fix [OF assms])
qed

lemma week_loop_sunday:
  assumes "w \<in> set (week_loop (startOfWeek s) e)"
  shows "(w + 4) mod 7 = 0"
proof -
  from assms have "(w - startOfWeek s) mod 7 = 0"
    by (simp add: week_loop_mem)
  with startOfWeek_sunday [of s] show ?thesis
    by presburger
qed

lemma sorted_hd_le: "sorted xs \<Longrightarrow> x \<in> set xs \<Longrightarrow> hd xs \<le> x"
  by (cases xs) auto

lemma sorted_le_last: "sorted xs \<Longrightarrow> x \<in> set xs \<Longrightarrow> x \<le> last xs"
  by (induction xs) auto

lemma dates_of_nonempty: "data \<noteq> [] \<Longrightarrow> dates_of data \<noteq> []"
  using set_dates_of [of data] by (cases data) auto

lemma js_nth_first: "xs \<noteq> [] \<Longrightarrow> js_nth xs 0 = Some (hd xs)"
  by (cases xs) (simp_all add: js_nth_def)

lemma js_nth_last: "xs \<noteq> [] \<Longrightarrow> js_nth xs (int (length xs) - 1) = Some (last xs)"
  by (simp add: js_nth_def last_conv_nth nat_diff_distrib')

lemma processedWeekly_empty: "processedWeekly [] = Inl InvalidInterval"
  by code_simp

lemma processedWeekly_valid:
  assumes "all_valid data" and "data \<noteq> []"
  shows "processedWeekly data = Inr (map (weekBucket data (weeks_of data)) [0..<length (weeks_of data)])"
proof -
  let ?ds = "dates_of data"
  from assms(2) have ne: "?ds \<noteq> []"
    by (rule dates_of_nonempty)
  then have mem: "hd ?ds \<in> set ?ds" "last ?ds \<in> set ?ds"
    by simp_all
  with assms(1) have valid: "valid_date (hd ?ds)" "valid_date (last ?ds)"
    by (auto simp: all_valid_iff set_dates_of)
  have "hd ?ds \<le> last ?ds"
    using sorted_dates_of mem(2) by (rule sorted_hd_le)
  with valid have le: "day_number (hd ?ds) \<le> day_number (last ?ds)"
    by (intro day_number_mono)
  have "eachWeekOfInterval (parseISO (js_nth ?ds 0)) (parseISO (js_nth ?ds (int (length ?ds) - 1)))
      = Inr (weeks_of data)"
    using ne valid le
    by (simp add: js_nth_first js_nth_last parseISO_Some eachWeekOfInterval_def weeks_of_def)
  then show ?thesis
    by (simp add: processedWeekly_def Let_def)
qed

lemma week_of_event_mem:
  assumes "all_valid data" and "e \<in> set data"
  shows "startOfWeek (day_number (date e)) \<in> set (weeks_of data)"
proof -
  let ?ds = "dates_of data"
  from assms have v: "valid_date (date e)"
    by (simp add: all_valid_iff)
  from assms(2) have e: "date e \<in> set ?ds"
    by (simp add: set_dates_of)
  then have ne: "?ds \<noteq> []"
    by auto
  then have mem: "hd ?ds \<in> set ?ds" "last ?ds \<in> set ?ds"
    by simp_all
  with assms(1) have valid: "valid_date (hd ?ds)" "valid_date (last ?ds)"
    by (auto simp: all_valid_iff set_dates_of)
  have "hd ?ds \<le> date e" "date e \<le> last ?ds"
    using sorted_dates_of e by (rule sorted_hd_le, rule sorted_le_last)
  with v valid have "day_number (hd ?ds) \<le> day_number (date e)"
      "day_number (date e) \<le> day_number (last ?ds)"
    by (simp_all add: day_number_mono)
  then have lo: "startOfWeek (day_number (hd ?ds)) \<le> startOfWeek (day_number (date e))"
    and hi: "startOfWeek (day_number (date e)) \<le> startOfWeek (day_number (last ?ds))"
    by (simp_all add: startOfWeek_mono)
  have "(startOfWeek (day_number (date e)) - startOfWeek (day_number (hd ?ds))) mod 7 = 0"
    using startOfWeek_sunday [of "day_number (date e)"] startOfWeek_sunday [of "day_number (hd ?ds)"]
    by presburger
  with lo hi show ?thesis
    by (simp add: weeks_of_def week_loop_mem)
qed

lemma filter_inWeek:
  assumes "all_valid data" and "w \<in> set (weeks_of data)"
  shows "filter (inWeek w) data = filter (\<lambda>e. startOfWeek (day_number (date e)) = w) data"
proof (rule filter_cong [OF refl])
  fix e assume "e \<in> set data"
  with assms(1) have v: "valid_date (date e)"
    by (simp add: all_valid_iff)
  from assms(2) have "(w + 4) mod 7 = 0"
    unfolding weeks_of_def by (rule week_loop_sunday)
  then show "inWeek w e = (startOfWeek (day_number (date e)) = w)"
    using v by (simp add: inWeek_def parseISO_Some in_window_iff)
qed

lemma sum_totals_weekly:
  assumes "all_valid data" and "data \<noteq> []"
  shows "\<exists>bs. processedData Weekly data = Inr bs \<and> sum_list (map total bs) = length data"
proof -
  let ?ws = "weeks_of data"
  let ?bs = "map (weekBucket data ?ws) [0..<length ?ws]"
  have run: "processedData Weekly data = Inr ?bs"
    using assms by (simp add: processedData_def processedWeekly_valid)
  have "map total ?bs = map (\<lambda>i. length (filter (inWeek (?ws ! i)) data)) [0..<length ?ws]"
    by (simp add: weekBucket_eq)
  also have "\<dots> = map (\<lambda>w. length (filter (inWeek w) data)) ?ws"
    by (rule map_tabulate)
  also have "\<dots> = map (\<lambda>w. length (filter (\<lambda>e. startOfWeek (day_number (date e)) = w) data)) ?ws"
    using assms(1) by (intro map_cong refl) (simp add: filter_inWeek)
  finally have "sum_list (map total ?bs) =
      sum_list (map (\<lambda>w. length (filter (\<lambda>e. startOfWeek (day_number (date e)) = w) data)) ?ws)"
    by (rule arg_cong)
  also have "\<dots> = length data"
  proof (rule count_partition)
    show "distinct ?ws"
      unfolding weeks_of_def by (rule distinct_week_loop)
    show "\<forall>e\<in>set data. startOfWeek (day_number (date e)) \<in> set ?ws"
      using assms(1) by (auto intro: week_of_event_mem)
  qed
  finally show ?thesis
    using run by blast
qed

section \<open>Conservation of the totals\<close>

text \<open>
  Claim C8.  When every event has a well-formed date, the totals of the buckets that
  aggregation returns add up to the number of events, at each granularity; and aggregation does
  return buckets, except for the empty collection at weekly granularity.
\<close>

theorem C8_total_conservation:
  assumes "all_valid data"
  shows "(\<forall>bs. processedData g data = Inr bs \<longrightarrow> sum_list (map total bs) = length data) \<and>
         (data \<noteq> [] \<or> g \<noteq> Weekly \<longrightarrow> (\<exists>bs. processedData g data = Inr bs))"
proof (cases g)
  case Daily
  with assms show ?thesis
    using sum_totals_daily processedData_Daily_total by blast
next
  case Monthly
  with assms show ?thesis
    using sum_totals_monthly processedData_Monthly_total by blast
next
  case Weekly
  show ?thesis
  proof (cases "data = []")
    case True
    with Weekly show ?thesis
      by (simp add: processedData_def processedWeekly_empty)
  next
    case False
    with assms obtain bs where "processedData Weekly data = Inr bs"
        "sum_list (map total bs) = length data"
      using sum_totals_weekly by blast
    with Weekly show ?thesis
      by auto
  qed
qed

theorem C8_total_conservation_witness:
  "all_valid sample_weeks \<and>
   processedData Weekly sample_weeks =
     Inr [\<lparr>period = YMD (2023, 12, 31), total = 1, success = 1, warning = 0, fail = 0,
           trend = Num 0, trendDirection = Stable\<rparr>,
          \<lparr>period = YMD (2024, 1, 7), total = 0, success = 0, warning = 0, fail = 0,
           trend = Num (- 100), trendDirection = Down\<rparr>,
          \<lparr>period = YMD (2024, 1, 14), total = 2, success = 1, warning = 0, fail = 1,
           trend = Num 0, trendDirection = Stable\<rparr>] \<and>
   sum_list (map total (projr (processedData Weekly sample_weeks))) = length sample_weeks \<and>
   sum_list (map total (projr (processedData Weekly sample_weeks))) = 3"
proof -
  let ?w0 = "\<lparr>period = YMD (2023, 12, 31), total = 1, success = 1, warning = 0, fail = 0,
           trend = Num 0, trendDirection = Stable\<rparr>"
  let ?w1 = "\<lparr>period = YMD (2024, 1, 7), total = 0, success = 0, warning = 0, fail = 0,
           trend = Num (- 100), trendDirection = Down\<rparr>"
  let ?w2 = "\<lparr>period = YMD (2024, 1, 14), total = 2, success = 1, warning = 0, fail = 1,
           trend = Num 0, trendDirection = Stable\<rparr>"
  have valid: "all_valid sample_weeks"
    by (rule samples_valid)
  have run: "processedData Weekly sample_weeks = Inr [?w0, ?w1, ?w2]"
    by (rule weekly_example)
  have sel: "projr (processedData Weekly sample_weeks) = [?w0, ?w1, ?w2]"
    by (simp only: run sum.sel)
  from C8_total_conservation [OF valid, of Weekly] run
  have sum: "sum_list (map total [?w0, ?w1, ?w2]) = length sample_weeks"
    by blast
  have three: "sum_list (map total [?w0, ?w1, ?w2]) = 3"
    by simp
  from valid run sum three show ?thesis
    unfolding sel by (intro conjI)
qed

section \<open>The cells of the heat map\<close>

lemma Math_max_ge_default: "d \<le> Math_max xs d"
  by (simp add: Math_max_eq)

lemma Math_max_ge_mem: "x \<in> set xs \<Longrightarrow> x \<le> Math_max xs d"
  by (simp add: Math_max_eq)

lemma Math_max_map: "Math_max (map f xs) d = Max (insert d (f ` set xs))"
  by (simp add: Math_max_eq)

lemma dailyCell_eq:
  "dailyCell data dates t d =
     (if valid_date d
      then Inr (cellOf t (YMD d) (dayEvents data t d)
                  (Math_max (map (\<lambda>d'. length (dayEvents data t d')) dates) 1))
      else Inl InvalidTimeValue)"
  by (simp add: dailyCell_def cellOf_def Let_def parseISO_Some)

lemma monthlyCell_eq:
  "monthlyCell data months t m =
     cellOf t (YM m) (monthEvents data t m)
       (Math_max (map (\<lambda>m'. length (monthEvents data t m')) months) 1)"
  by (simp add: monthlyCell_def cellOf_def Let_def)

lemma weeklyCell_eq:
  "weeklyCell data types weeks t w =
     cellOf t (YMD (format_ymd w)) (weekEvents data t w) (maxEvents data types weeks)"
  by (simp add: weeklyCell_def cellOf_def Let_def)

lemma maxEvents_eq:
  "maxEvents data types weeks =
     Max (insert 1 {length (weekEvents data t w) | t w. t \<in> set types \<and> w \<in> set weeks})"
    (is "_ = Max ?S")
proof -
  let ?inner = "\<lambda>t. Max (insert 1 ((\<lambda>w. length (weekEvents data t w)) ` set weeks))"
  have fin: "finite ?S"
  proof -
    have "?S = insert 1 ((\<lambda>(t, w). length (weekEvents data t w)) ` (set types \<times> set weeks))"
      by auto
    then show ?thesis
      by simp
  qed
  have eq: "maxEvents data types weeks = Max (insert 1 (?inner ` set types))"
    by (simp add: maxEvents_def Math_max_map)
  show ?thesis
    unfolding eq
  proof (rule antisym)
    show "Max (insert 1 (?inner ` set types)) \<le> Max ?S"
    proof (rule Max.boundedI)
      show "finite (insert 1 (?inner ` set types))" by simp
      show "insert 1 (?inner ` set types) \<noteq> {}" by simp
      fix a assume "a \<in> insert 1 (?inner ` set types)"
      then consider "a = 1" | t where "t \<in> set types" "a = ?inner t"
        by auto
      then show "a \<le> Max ?S"
      proof cases
        case 1
        then show ?thesis
          using fin by (intro Max_ge) auto
      next
        case 2
        have "?inner t \<le> Max ?S"
        proof (rule Max.boundedI)
          show "finite (insert 1 ((\<lambda>w. length (weekEvents data t w)) ` set weeks))" by simp
          show "insert 1 ((\<lambda>w. length (weekEvents data t w)) ` set weeks) \<noteq> {}" by simp
          fix b assume "b \<in> insert 1 ((\<lambda>w. length (weekEvents data t w)) ` set weeks)"
          with 2(1) have "b \<in> ?S" by auto
          with fin show "b \<le> Max ?S" by (rule Max_ge)
        qed
        with 2(2) show ?thesis by simp
      qed
    qed
    show "Max ?S \<le> Max (insert 1 (?inner ` set types))"
    proof (rule Max.boundedI)
      show "finite ?S" by (rule fin)
      show "?S \<noteq> {}" by auto
      fix a assume "a \<in> ?S"
      then consider "a = 1" | t w where "t \<in> set types" "w \<in> set weeks" "a = length (weekEvents data t w)"
        by auto
      then show "a \<le> Max (insert 1 (?inner ` set types))"
      proof cases
        case 1
        then show ?thesis by simp
      next
        case 2
        have "a \<le> ?inner t"
          using 2(2,3) by (intro Max_ge) auto
        also have "?inner t \<le> Max (insert 1 (?inner ` set types))"
          using 2(1) by (intro Max_ge) auto
        finally show ?thesis .
      qed
    qed
  qed
qed

lemma maxEvents_ge:
  "t \<in> set types \<Longrightarrow> w \<in> set weeks \<Longrightarrow> length (weekEvents data t w) \<le> maxEvents data types weeks"
proof -
  assume tw: "t \<in> set types" "w \<in> set weeks"
  have "length (weekEvents data t w)
      \<le> Math_max (map (\<lambda>w. length (weekEvents data t w)) weeks) 1"
    using tw(2) by (intro Math_max_ge_mem) simp
  also have "\<dots> \<le> maxEvents data types weeks"
    unfolding maxEvents_def using tw(1) by (intro Math_max_ge_mem) auto
  finally show ?thesis .
qed

lemma maxEvents_pos: "1 \<le> maxEvents data types weeks"
  unfolding maxEvents_def by (rule Math_max_ge_default)

lemma statusCounts_eq:
  "statusCounts evs s =
     (if s \<in> status ` set evs then Some (length (filter (\<lambda>e. status e = s) evs)) else None)"
proof (induction evs rule: rev_induct)
  case Nil
  show ?case by (simp add: statusCounts_def)
next
  case (snoc x xs)
  have step: "statusCounts (xs @ [x]) =
      (statusCounts xs)(status x \<mapsto> (case statusCounts xs (status x) of None \<Rightarrow> 0 | Some n \<Rightarrow> n) + 1)"
    by (simp add: statusCounts_def)
  show ?case
  proof (cases "status x = s")
    case False
    then show ?thesis
      unfolding step using snoc by auto
  next
    case True
    show ?thesis
    proof (cases "s \<in> status ` set xs")
      case True
      with snoc have "statusCounts xs s = Some (length (filter (\<lambda>e. status e = s) xs))"
        by simp
      with \<open>status x = s\<close> show ?thesis
        unfolding step by simp
    next
      case False
      then have "filter (\<lambda>e. status e = s) xs = []"
        by (auto simp: filter_empty_conv)
      moreover from False snoc have "statusCounts xs s = None"
        by simp
      ultimately show ?thesis
        unfolding step using \<open>status x = s\<close> by simp
    qed
  qed
qed

lemma truthy_statusCounts: "truthy (statusCounts evs s) \<longleftrightarrow> (\<exists>e\<in>set evs. status e = s)"
  by (auto simp: truthy_def statusCounts_eq filter_empty_conv)

lemma dominantStatus_eq:
  "dominantStatus evs =
     (if \<exists>e\<in>set evs. status e = Fail then Fail
      else if \<exists>e\<in>set evs. status e = Warning then Warning else Success)"
  by (simp add: dominantStatus_def Let_def truthy_statusCounts)

lemma sequence_concat_mem:
  assumes "sequence (concat (map (\<lambda>t. map (f t) ds) ts)) = Inr cells" and "c \<in> set cells"
  shows "\<exists>t\<in>set ts. \<exists>d\<in>set ds. f t d = Inr c"
proof -
  from assms(1) have "concat (map (\<lambda>t. map (f t) ds) ts) = map Inr cells"
    by (rule sequence_Inr_D)
  with assms(2) have "Inr c \<in> set (concat (map (\<lambda>t. map (f t) ds) ts))"
    by simp
  then obtain t d where "t \<in> set ts" "d \<in> set ds" "Inr c = f t d"
    by auto
  then have "t \<in> set ts" "d \<in> set ds" "f t d = Inr c"
    by simp_all
  then show ?thesis
    by blast
qed

lemma sequence_format_ym:
  assumes "sequence (map format_ym ds) = Inr ms"
  shows "ms = map month_key ds"
proof -
  from assms have eq: "map format_ym ds = map Inr ms"
    by (rule sequence_Inr_D)
  then have len: "length ms = length ds"
    by (metis length_map)
  show ?thesis
  proof (rule nth_equalityI)
    show "length ms = length (map month_key ds)"
      using len by simp
    fix i assume i: "i < length ms"
    with eq len have "map format_ym ds ! i = map Inr ms ! i"
      by simp
    with i len have "format_ym (ds ! i) = Inr (ms ! i)"
      by simp
    then have "ms ! i = month_key (ds ! i)"
      by (simp add: format_ym_def split: if_splits)
    with i len show "ms ! i = map month_key ds ! i"
      by simp
  qed
qed

lemma gridData_Daily:
  assumes "gridData Daily data = Inr cells" and "c \<in> set cells"
  shows "\<exists>t\<in>set (activityTypes data). \<exists>d\<in>date ` set data.
           c = cellOf t (YMD d) (dayEvents data t d)
                 (Max (insert 1 ((\<lambda>d'. length (dayEvents data t d')) ` date ` set data)))"
proof -
  from assms(1) have seq:
    "sequence (concat (map (\<lambda>t. map (dailyCell data (dates_of data) t) (dates_of data))
        (activityTypes data))) = Inr cells"
    by (auto simp: gridData_def processDataByGranularity_def Let_def split: sum.splits)
  from sequence_concat_mem [OF seq assms(2)]
  obtain t d where t: "t \<in> set (activityTypes data)" and d: "d \<in> set (dates_of data)"
    and c: "dailyCell data (dates_of data) t d = Inr c"
    by blast
  from c have "c = cellOf t (YMD d) (dayEvents data t d)
                  (Math_max (map (\<lambda>d'. length (dayEvents data t d')) (dates_of data)) 1)"
    by (simp add: dailyCell_eq split: if_splits)
  with t d show ?thesis
    by (auto simp: Math_max_map set_dates_of)
qed

lemma gridData_Monthly:
  assumes "gridData Monthly data = Inr cells" and "c \<in> set cells"
  shows "\<exists>t\<in>set (activityTypes data). \<exists>m\<in>(\<lambda>e. month_key (date e)) ` set data.
           c = cellOf t (YM m) (monthEvents data t m)
                 (Max (insert 1 ((\<lambda>m'. length (monthEvents data t m')) ` (\<lambda>e. month_key (date e)) ` set data)))"
proof -
  from assms(1) obtain ms where ms: "sequence (map format_ym (dates_of data)) = Inr ms"
    and cells: "cells = concat (map (\<lambda>t. map (monthlyCell data (uniq ms) t) (uniq ms)) (activityTypes data))"
    by (auto simp: gridData_def processDataByGranularity_def Let_def split: sum.splits)
  from ms have "ms = map month_key (dates_of data)"
    by (rule sequence_format_ym)
  then have set_ms: "set (uniq ms) = (\<lambda>e. month_key (date e)) ` set data"
    by (auto simp: set_dates_of)
  from assms(2) cells obtain t m where t: "t \<in> set (activityTypes data)" and m: "m \<in> set (uniq ms)"
    and c: "c = monthlyCell data (uniq ms) t m"
    by auto
  from c have "c = cellOf t (YM m) (monthEvents data t m)
       (Max (insert 1 ((\<lambda>m'. length (monthEvents data t m')) ` set (uniq ms))))"
    by (simp add: monthlyCell_eq Math_max_map)
  with t m show ?thesis
    unfolding set_ms by blast
qed

lemma gridData_Weekly:
  assumes "gridData Weekly data = Inr cells" and "c \<in> set cells"
  shows "\<exists>weeks. heatmapWeeks data = Inr weeks \<and>
           (\<exists>t\<in>set (activityTypes data). \<exists>w\<in>set weeks.
              c = cellOf t (YMD (format_ymd w)) (weekEvents data t w)
                    (maxEvents data (activityTypes data) weeks))"
proof -
  from assms(1) obtain weeks where weeks: "heatmapWeeks data = Inr weeks"
    and cells: "cells = concat (map (\<lambda>t. map (weeklyCell data (activityTypes data) weeks t) weeks)
        (activityTypes data))"
    by (auto simp: gridData_def processDataByGranularity_def Let_def split: sum.splits)
  from assms(2) cells obtain t w where "t \<in> set (activityTypes data)" "w \<in> set weeks"
    "c = weeklyCell data (activityTypes data) weeks t w"
    by auto
  with weeks show ?thesis
    by (auto simp: weeklyCell_eq)
qed

lemma count_cellOf [simp]: "count (cellOf t p evs den) = length evs"
  by (simp add: cellOf_def)

lemma events_cellOf [simp]: "events (cellOf t p evs den) = evs"
  by (simp add: cellOf_def)

lemma cellActivityType_cellOf [simp]: "cellActivityType (cellOf t p evs den) = t"
  by (simp add: cellOf_def)

lemma cellPeriod_cellOf [simp]: "cellPeriod (cellOf t p evs den) = p"
  by (simp add: cellOf_def)

lemma cellStatus_cellOf:
  "cellStatus (cellOf t p evs den) = (if 0 < length evs then Some (dominantStatus evs) else None)"
  by (simp add: cellOf_def)

lemma intensity_cellOf:
  "1 \<le> den \<Longrightarrow> intensity (cellOf t p evs den) = Num (of_nat (length evs) / of_nat den)"
  by (simp add: cellOf_def js_div_def)

lemma Max_insert_one_ge: "finite S \<Longrightarrow> (1::nat) \<le> Max (insert 1 S)"
  by (rule Max_ge) simp_all

lemma cellOf_witness:
  "1 \<le> den \<Longrightarrow> length evs \<le> den \<Longrightarrow>
   \<exists>t' p' evs' den'. cellOf t p evs den = cellOf t' p' evs' den' \<and> 1 \<le> den' \<and> length evs' \<le> den'"
  by (intro exI conjI) (rule refl)

lemma gridData_cell:
  assumes "gridData g data = Inr cells" and "c \<in> set cells"
  shows "\<exists>t p evs den. c = cellOf t p evs den \<and> 1 \<le> den \<and> length evs \<le> den"
proof (cases g)
  case Daily
  from gridData_Daily [OF assms [unfolded Daily]]
  obtain t d where d: "d \<in> date ` set data" and
    c: "c = cellOf t (YMD d) (dayEvents data t d)
              (Max (insert 1 ((\<lambda>d'. length (dayEvents data t d')) ` date ` set data)))"
    by (elim bexE)
  have le: "length (dayEvents data t d) \<le> Max (insert 1 ((\<lambda>d'. length (dayEvents data t d')) ` date ` set data))"
    using d by (intro Max_ge) auto
  have pos: "1 \<le> Max (insert 1 ((\<lambda>d'. length (dayEvents data t d')) ` date ` set data))"
    by (rule Max_insert_one_ge) simp
  show ?thesis
    unfolding c using pos le by (rule cellOf_witness)
next
  case Monthly
  from gridData_Monthly [OF assms [unfolded Monthly]]
  obtain t m where m: "m \<in> (\<lambda>e. month_key (date e)) ` set data" and
    c: "c = cellOf t (YM m) (monthEvents data t m)
              (Max (insert 1 ((\<lambda>m'. length (monthEvents data t m')) ` (\<lambda>e. month_key (date e)) ` set data)))"
    by (elim bexE)
  have le: "length (monthEvents data t m)
      \<le> Max (insert 1 ((\<lambda>m'. length (monthEvents data t m')) ` (\<lambda>e. month_key (date e)) ` set data))"
    using m by (intro Max_ge) auto
  have pos: "1 \<le> Max (insert 1 ((\<lambda>m'. length (monthEvents data t m')) ` (\<lambda>e. month_key (date e)) ` set data))"
    by (rule Max_insert_one_ge) simp
  show ?thesis
    unfolding c using pos le by (rule cellOf_witness)
next
  case Weekly
  from gridData_Weekly [OF assms [unfolded Weekly]]
  obtain weeks t w where tw: "t \<in> set (activityTypes data)" "w \<in> set weeks" and
    c: "c = cellOf t (YMD (format_ymd w)) (weekEvents data t w) (maxEvents data (activityTypes data) weeks)"
    by (elim exE conjE bexE)
  from tw have le: "length (weekEvents data t w) \<le> maxEvents data (activityTypes data) weeks"
    by (rule maxEvents_ge)
  show ?thesis
    unfolding c using maxEvents_pos le by (rule cellOf_witness)
qed

text \<open>
  Claim C5.  The intensity of a cell is its count divided by a denominator that is at least 1:
  at daily and monthly granularity the largest count among the bins of the cell's own activity
  type over all days or months of the collection, at weekly granularity the largest count among
  the bins of all activity types and all weeks; in each case 1 when every such count is 0.
\<close>

theorem C5_intensity_denominator:
  assumes "gridData g data = Inr cells" and "c \<in> set cells"
  shows "\<exists>den. 1 \<le> den \<and> intensity c = Num (of_nat (count c) / of_nat den) \<and>
           (g = Daily \<longrightarrow>
              den = Max (insert 1 ((\<lambda>d. length (dayEvents data (cellActivityType c) d)) `
                                     date ` set data))) \<and>
           (g = Monthly \<longrightarrow>
              den = Max (insert 1 ((\<lambda>m. length (monthEvents data (cellActivityType c) m)) `
                                     (\<lambda>e. month_key (date e)) ` set data))) \<and>
           (g = Weekly \<longrightarrow>
              (\<exists>weeks. heatmapWeeks data = Inr weeks \<and>
                 den = Max (insert 1 {length (weekEvents data t w) | t w.
                                        t \<in> set (activityTypes data) \<and> w \<in> set weeks})))"
proof (cases g)
  case Daily
  from gridData_Daily [OF assms [unfolded Daily]]
  obtain t d where
    c: "c = cellOf t (YMD d) (dayEvents data t d)
              (Max (insert 1 ((\<lambda>d'. length (dayEvents data t d')) ` date ` set data)))"
    by (elim bexE)
  let ?den = "Max (insert 1 ((\<lambda>d'. length (dayEvents data t d')) ` date ` set data))"
  have pos: "1 \<le> ?den"
    by (rule Max_insert_one_ge) simp
  have int: "intensity c = Num (of_nat (count c) / of_nat ?den)"
    unfolding c count_cellOf using pos by (rule intensity_cellOf)
  have ty: "cellActivityType c = t"
    unfolding c by (rule cellActivityType_cellOf)
  show ?thesis
    using pos int Daily unfolding ty by (intro exI [of _ ?den]) simp
next
  case Monthly
  from gridData_Monthly [OF assms [unfolded Monthly]]
  obtain t m where
    c: "c = cellOf t (YM m) (monthEvents data t m)
              (Max (insert 1 ((\<lambda>m'. length (monthEvents data t m')) ` (\<lambda>e. month_key (date e)) ` set data)))"
    by (elim bexE)
  let ?den = "Max (insert 1 ((\<lambda>m'. length (monthEvents data t m')) ` (\<lambda>e. month_key (date e)) ` set data))"
  have pos: "1 \<le> ?den"
    by (rule Max_insert_one_ge) simp
  have int: "intensity c = Num (of_nat (count c) / of_nat ?den)"
    unfolding c count_cellOf using pos by (rule intensity_cellOf)
  have ty: "cellActivityType c = t"
    unfolding c by (rule cellActivityType_cellOf)
  show ?thesis
    using pos int Monthly unfolding ty by (intro exI [of _ ?den]) simp
next
  case Weekly
  from gridData_Weekly [OF assms [unfolded Weekly]]
  obtain weeks t w where weeks: "heatmapWeeks data = Inr weeks" and
    c: "c = cellOf t (YMD (format_ymd w)) (weekEvents data t w) (maxEvents data (activityTypes data) weeks)"
    by (elim exE conjE bexE)
  let ?den = "maxEvents data (activityTypes data) weeks"
  have pos: "1 \<le> ?den"
    by (rule maxEvents_pos)
  have int: "intensity c = Num (of_nat (count c) / of_nat ?den)"
    unfolding c count_cellOf using pos by (rule intensity_cellOf)
  have "heatmapWeeks data = Inr weeks \<and>
      ?den = Max (insert 1 {length (weekEvents data t w) | t w. t \<in> set (activityTypes data) \<and> w \<in> set weeks})"
    using weeks by (intro conjI maxEvents_eq)
  then have "\<exists>ws. heatmapWeeks data = Inr ws \<and>
      ?den = Max (insert 1 {length (weekEvents data t w) | t w. t \<in> set (activityTypes data) \<and> w \<in> set ws})"
    by (rule exI)
  with pos int Weekly show ?thesis
    by (intro exI [of _ ?den]) simp
qed

text \<open>
  Claim C6.  A cell that holds at least one event has the status fail when one of its events
  failed, otherwise warning when one of its events is a warning, otherwise success.
\<close>

theorem C6_dominant_status:
  assumes "gridData g data = Inr cells" and "c \<in> set cells" and "0 < count c"
  shows "cellStatus c =
           Some (if \<exists>e\<in>set (events c). status e = Fail then Fail
                 else if \<exists>e\<in>set (events c). status e = Warning then Warning else Success)"
proof -
  from gridData_cell [OF assms(1,2)]
  obtain t p evs den where c: "c = cellOf t p evs den"
    by (elim exE conjE)
  with assms(3) have "0 < length evs"
    by simp
  then show ?thesis
    unfolding c by (simp add: cellStatus_cellOf dominantStatus_eq)
qed

text \<open>
  Claim C7.  The intensity of every cell is a number between 0 and 1, and it is 0 exactly when
  the cell is empty.
\<close>

theorem C7_intensity_bounds:
  assumes "gridData g data = Inr cells" and "c \<in> set cells"
  shows "\<exists>r. intensity c = Num r \<and> 0 \<le> r \<and> r \<le> 1 \<and> (r = 0 \<longleftrightarrow> count c = 0)"
proof -
  from gridData_cell [OF assms]
  obtain t p evs den where c: "c = cellOf t p evs den"
    and den: "1 \<le> den" "length evs \<le> den"
    by (elim exE conjE)
  let ?r = "of_nat (length evs) / of_nat den :: rat"
  have "intensity c = Num ?r"
    unfolding c using den(1) by (rule intensity_cellOf)
  moreover have "0 \<le> ?r"
    by simp
  moreover have "?r \<le> 1"
    using den by (simp add: divide_le_eq_1)
  moreover have "?r = 0 \<longleftrightarrow> count c = 0"
    unfolding c using den(1) by simp
  ultimately show ?thesis
    by (intro exI [of _ ?r] conjI)
qed

text \<open>
  Claim C10.  The count of a cell is the length of its events sequence, and every event of the
  sequence is an event of the collection that has the cell's activity type and lies in the
  cell's period: its date is the day key, its month is the month key, or its date parses to a
  day inside the window from the start to the end of the week whose start date is the key.
\<close>

theorem C10_cell_events:
  assumes "gridData g data = Inr cells" and "c \<in> set cells"
  shows "count c = length (events c) \<and>
         (\<forall>e\<in>set (events c).
            e \<in> set data \<and> activityType e = cellActivityType c \<and>
            (g = Daily \<longrightarrow> cellPeriod c = YMD (date e)) \<and>
            (g = Monthly \<longrightarrow> cellPeriod c = YM (month_key (date e))) \<and>
            (g = Weekly \<longrightarrow>
               (\<exists>weeks week eventDate.
                  heatmapWeeks data = Inr weeks \<and> week \<in> set weeks \<and>
                  cellPeriod c = YMD (format_ymd week) \<and>
                  parseISO (Some (date e)) = Some eventDate \<and>
                  startOfWeek week \<le> eventDate \<and> eventDate \<le> endOfWeek week)))"
proof (cases g)
  case Daily
  from gridData_Daily [OF assms [unfolded Daily]]
  obtain t d where
    c: "c = cellOf t (YMD d) (dayEvents data t d)
              (Max (insert 1 ((\<lambda>d'. length (dayEvents data t d')) ` date ` set data)))"
    by (elim bexE)
  show ?thesis
    unfolding c using Daily by (auto simp: dayEvents_def)
next
  case Monthly
  from gridData_Monthly [OF assms [unfolded Monthly]]
  obtain t m where
    c: "c = cellOf t (YM m) (monthEvents data t m)
              (Max (insert 1 ((\<lambda>m'. length (monthEvents data t m')) ` (\<lambda>e. month_key (date e)) ` set data)))"
    by (elim bexE)
  show ?thesis
    unfolding c using Monthly by (auto simp: monthEvents_def)
next
  case Weekly
  from gridData_Weekly [OF assms [unfolded Weekly]]
  obtain weeks t w where weeks: "heatmapWeeks data = Inr weeks" and w: "w \<in> set weeks" and
    c: "c = cellOf t (YMD (format_ymd w)) (weekEvents data t w) (maxEvents data (activityTypes data) weeks)"
    by (elim exE conjE bexE)
  have cnt: "count c = length (events c)"
    unfolding c by simp
  have "\<And>e. e \<in> set (events c) \<Longrightarrow>
      e \<in> set data \<and> activityType e = cellActivityType c \<and>
      (\<exists>weeks week eventDate.
          heatmapWeeks data = Inr weeks \<and> week \<in> set weeks \<and>
          cellPeriod c = YMD (format_ymd week) \<and>
          parseISO (Some (date e)) = Some eventDate \<and>
          startOfWeek week \<le> eventDate \<and> eventDate \<le> endOfWeek week)"
  proof -
    fix e assume "e \<in> set (events c)"
    then have e: "e \<in> set data" "activityType e = t" "inWeek w e"
      unfolding c by (simp_all add: weekEvents_def)
    from e(3) obtain eventDate where d: "parseISO (Some (date e)) = Some eventDate"
      "startOfWeek w \<le> eventDate" "eventDate \<le> endOfWeek w"
      by (auto simp: inWeek_def split: option.splits)
    have p: "cellPeriod c = YMD (format_ymd w)"
      unfolding c by simp
    have ty: "activityType e = cellActivityType c"
      unfolding c using e(2) by simp
    from weeks w p d have "\<exists>weeks week eventDate.
          heatmapWeeks data = Inr weeks \<and> week \<in> set weeks \<and>
          cellPeriod c = YMD (format_ymd week) \<and>
          parseISO (Some (date e)) = Some eventDate \<and>
          startOfWeek week \<le> eventDate \<and> eventDate \<le> endOfWeek week"
      by (intro exI conjI)
    with e(1) ty show "e \<in> set data \<and> activityType e = cellActivityType c \<and>
      (\<exists>weeks week eventDate.
          heatmapWeeks data = Inr weeks \<and> week \<in> set weeks \<and>
          cellPeriod c = YMD (format_ymd week) \<and>
          parseISO (Some (date e)) = Some eventDate \<and>
          startOfWeek week \<le> eventDate \<and> eventDate \<le> endOfWeek week)"
      by (intro conjI)
  qed
  with cnt Weekly show ?thesis
    by simp
qed

section \<open>The claims about cells on an example\<close>

lemma grid_daily_example:
  "gridData Daily sample_days =
     Inr [cellOf ''login'' (YMD (2024, 1, 1))
            [ev (2024, 1, 1) ''login'' Success, ev (2024, 1, 1) ''login'' Fail] 2,
          cellOf ''login'' (YMD (2024, 1, 3)) [] 2,
          cellOf ''transfer'' (YMD (2024, 1, 1)) [] 1,
          cellOf ''transfer'' (YMD (2024, 1, 3)) [ev (2024, 1, 3) ''transfer'' Warning] 1]"
  by code_simp

lemma grid_weekly_example:
  "gridData Weekly sample_weeks =
     Inr [cellOf ''login'' (YMD (2023, 12, 31)) [ev (2024, 1, 1) ''login'' Success] 2,
          cellOf ''login'' (YMD (2024, 1, 7)) [] 2,
          cellOf ''login'' (YMD (2024, 1, 14))
            [ev (2024, 1, 15) ''login'' Success, ev (2024, 1, 16) ''login'' Fail] 2]"
  by code_simp

lemma grid_monthly_example:
  "gridData Monthly sample_months =
     Inr [cellOf ''login'' (YM (2024, 1)) [ev (2024, 1, 30) ''login'' Success] 1,
          cellOf ''login'' (YM (2024, 3)) [ev (2024, 3, 1) ''login'' Fail] 1,
          cellOf ''transfer'' (YM (2024, 1)) [] 1,
          cellOf ''transfer'' (YM (2024, 3)) [ev (2024, 3, 2) ''transfer'' Warning] 1]"
  by code_simp

theorem C5_intensity_denominator_witness:
  "(\<exists>den. 1 \<le> den \<and>
      intensity (projr (gridData Daily sample_days) ! 0) =
        Num (of_nat (count (projr (gridData Daily sample_days) ! 0)) / of_nat den) \<and>
      den = Max (insert 1 ((\<lambda>d. length (dayEvents sample_days
                 (cellActivityType (projr (gridData Daily sample_days) ! 0)) d)) `
               date ` set sample_days))) \<and>
   (\<exists>den. 1 \<le> den \<and>
      intensity (projr (gridData Monthly sample_months) ! 1) =
        Num (of_nat (count (projr (gridData Monthly sample_months) ! 1)) / of_nat den) \<and>
      den = Max (insert 1 ((\<lambda>m. length (monthEvents sample_months
                 (cellActivityType (projr (gridData Monthly sample_months) ! 1)) m)) `
               (\<lambda>e. month_key (date e)) ` set sample_months))) \<and>
   (\<exists>den. 1 \<le> den \<and>
      intensity (projr (gridData Weekly sample_weeks) ! 0) =
        Num (of_nat (count (projr (gridData Weekly sample_weeks) ! 0)) / of_nat den) \<and>
      (\<exists>weeks. heatmapWeeks sample_weeks = Inr weeks \<and>
         den = Max (insert 1 {length (weekEvents sample_weeks t w) | t w.
                                t \<in> set (activityTypes sample_weeks) \<and> w \<in> set weeks})))"
proof -
  let ?D = "projr (gridData Daily sample_days)"
  let ?M = "projr (gridData Monthly sample_months)"
  let ?W = "projr (gridData Weekly sample_weeks)"
  have runD: "gridData Daily sample_days = Inr ?D"
    by (simp only: grid_daily_example sum.sel)
  have runM: "gridData Monthly sample_months = Inr ?M"
    by (simp only: grid_monthly_example sum.sel)
  have runW: "gridData Weekly sample_weeks = Inr ?W"
    by (simp only: grid_weekly_example sum.sel)
  have memD: "?D ! 0 \<in> set ?D"
    by (simp add: grid_daily_example)
  have memM: "?M ! 1 \<in> set ?M"
    by (simp add: grid_monthly_example)
  have memW: "?W ! 0 \<in> set ?W"
    by (simp add: grid_weekly_example)
  have daily: "\<exists>den. 1 \<le> den \<and>
      intensity (?D ! 0) = Num (of_nat (count (?D ! 0)) / of_nat den) \<and>
      den = Max (insert 1 ((\<lambda>d. length (dayEvents sample_days (cellActivityType (?D ! 0)) d)) `
               date ` set sample_days))"
    using C5_intensity_denominator [OF runD memD] by blast
  have monthly: "\<exists>den. 1 \<le> den \<and>
      intensity (?M ! 1) = Num (of_nat (count (?M ! 1)) / of_nat den) \<and>
      den = Max (insert 1 ((\<lambda>m. length (monthEvents sample_months (cellActivityType (?M ! 1)) m)) `
               (\<lambda>e. month_key (date e)) ` set sample_months))"
    using C5_intensity_denominator [OF runM memM] by blast
  have weekly: "\<exists>den. 1 \<le> den \<and>
      intensity (?W ! 0) = Num (of_nat (count (?W ! 0)) / of_nat den) \<and>
      (\<exists>weeks. heatmapWeeks sample_weeks = Inr weeks \<and>
         den = Max (insert 1 {length (weekEvents sample_weeks t w) | t w.
                                t \<in> set (activityTypes sample_weeks) \<and> w \<in> set weeks}))"
    using C5_intensity_denominator [OF runW memW] by blast
  from daily monthly weekly show ?thesis
    by (intro conjI)
qed

theorem C6_dominant_status_witness:
  "0 < count (projr (gridData Daily sample_days) ! 0) \<and>
   cellStatus (projr (gridData Daily sample_days) ! 0) = Some Fail \<and>
   0 < count (projr (gridData Daily sample_days) ! 3) \<and>
   cellStatus (projr (gridData Daily sample_days) ! 3) = Some Warning \<and>
   0 < count (projr (gridData Weekly sample_weeks) ! 0) \<and>
   cellStatus (projr (gridData Weekly sample_weeks) ! 0) = Some Success"
proof -
  let ?D = "projr (gridData Daily sample_days)"
  let ?W = "projr (gridData Weekly sample_weeks)"
  have runD: "gridData Daily sample_days = Inr ?D"
    by (simp only: grid_daily_example sum.sel)
  have runW: "gridData Weekly sample_weeks = Inr ?W"
    by (simp only: grid_weekly_example sum.sel)
  have mem0: "?D ! 0 \<in> set ?D" and mem3: "?D ! 3 \<in> set ?D"
    by (simp_all add: grid_daily_example)
  have memW: "?W ! 0 \<in> set ?W"
    by (simp add: grid_weekly_example)
  have pos0: "0 < count (?D ! 0)" and pos3: "0 < count (?D ! 3)"
    by (simp_all add: grid_daily_example)
  have posW: "0 < count (?W ! 0)"
    by (simp add: grid_weekly_example)
  have ev0: "events (?D ! 0) = [ev (2024, 1, 1) ''login'' Success, ev (2024, 1, 1) ''login'' Fail]"
    and ev3: "events (?D ! 3) = [ev (2024, 1, 3) ''transfer'' Warning]"
    by (simp_all add: grid_daily_example)
  have evW: "events (?W ! 0) = [ev (2024, 1, 1) ''login'' Success]"
    by (simp add: grid_weekly_example)
  have s0: "cellStatus (?D ! 0) = Some Fail"
    using C6_dominant_status [OF runD mem0 pos0] unfolding ev0 by simp
  have s3: "cellStatus (?D ! 3) = Some Warning"
    using C6_dominant_status [OF runD mem3 pos3] unfolding ev3 by simp
  have sW: "cellStatus (?W ! 0) = Some Success"
    using C6_dominant_status [OF runW memW posW] unfolding evW by simp
  from pos0 s0 pos3 s3 posW sW show ?thesis
    by (intro conjI)
qed

theorem C7_intensity_bounds_witness:
  "(\<exists>r. intensity (projr (gridData Daily sample_days) ! 0) = Num r \<and> 0 \<le> r \<and> r \<le> 1) \<and>
   intensity (projr (gridData Daily sample_days) ! 0) = Num 1 \<and>
   (\<exists>r. intensity (projr (gridData Weekly sample_weeks) ! 0) = Num r \<and> 0 \<le> r \<and> r \<le> 1) \<and>
   intensity (projr (gridData Weekly sample_weeks) ! 0) = Num (1 / 2) \<and>
   (\<exists>r. intensity (projr (gridData Weekly sample_weeks) ! 1) = Num r \<and> 0 \<le> r \<and> r \<le> 1) \<and>
   intensity (projr (gridData Weekly sample_weeks) ! 1) = Num 0 \<and>
   count (projr (gridData Weekly sample_weeks) ! 1) = 0"
proof -
  let ?D = "projr (gridData Daily sample_days)"
  let ?W = "projr (gridData Weekly sample_weeks)"
  have runD: "gridData Daily sample_days = Inr ?D"
    by (simp only: grid_daily_example sum.sel)
  have runW: "gridData Weekly sample_weeks = Inr ?W"
    by (simp only: grid_weekly_example sum.sel)
  have memD: "?D ! 0 \<in> set ?D"
    by (simp add: grid_daily_example)
  have memW0: "?W ! 0 \<in> set ?W" and memW1: "?W ! 1 \<in> set ?W"
    by (simp_all add: grid_weekly_example)
  have a: "\<exists>r. intensity (?D ! 0) = Num r \<and> 0 \<le> r \<and> r \<le> 1"
    using C7_intensity_bounds [OF runD memD] by blast
  have b: "\<exists>r. intensity (?W ! 0) = Num r \<and> 0 \<le> r \<and> r \<le> 1"
    using C7_intensity_bounds [OF runW memW0] by blast
  have c: "\<exists>r. intensity (?W ! 1) = Num r \<and> 0 \<le> r \<and> r \<le> 1"
    using C7_intensity_bounds [OF runW memW1] by blast
  have va: "intensity (?D ! 0) = Num 1"
    by (simp add: grid_daily_example cellOf_def js_div_def)
  have vb: "intensity (?W ! 0) = Num (1 / 2)"
    by (simp add: grid_weekly_example cellOf_def js_div_def)
  have vc: "intensity (?W ! 1) = Num 0" "count (?W ! 1) = 0"
    by (simp_all add: grid_weekly_example cellOf_def)
  from a va b vb c vc show ?thesis
    by (intro conjI)
qed

theorem C10_cell_events_witness:
  "count (projr (gridData Daily sample_days) ! 0) = length (events (projr (gridData Daily sample_days) ! 0)) \<and>
   ev (2024, 1, 1) ''login'' Fail \<in> set (events (projr (gridData Daily sample_days) ! 0)) \<and>
   activityType (ev (2024, 1, 1) ''login'' Fail) = cellActivityType (projr (gridData Daily sample_days) ! 0) \<and>
   cellPeriod (projr (gridData Daily sample_days) ! 0) = YMD (date (ev (2024, 1, 1) ''login'' Fail)) \<and>
   ev (2024, 3, 1) ''login'' Fail \<in> set (events (projr (gridData Monthly sample_months) ! 1)) \<and>
   cellPeriod (projr (gridData Monthly sample_months) ! 1) =
     YM (month_key (date (ev (2024, 3, 1) ''login'' Fail))) \<and>
   ev (2024, 1, 16) ''login'' Fail \<in> set (events (projr (gridData Weekly sample_weeks) ! 2)) \<and>
   (\<exists>weeks week eventDate.
      heatmapWeeks sample_weeks = Inr weeks \<and> week \<in> set weeks \<and>
      cellPeriod (projr (gridData Weekly sample_weeks) ! 2) = YMD (format_ymd week) \<and>
      parseISO (Some (date (ev (2024, 1, 16) ''login'' Fail))) = Some eventDate \<and>
      startOfWeek week \<le> eventDate \<and> eventDate \<le> endOfWeek week)"
proof -
  let ?D = "projr (gridData Daily sample_days)"
  let ?M = "projr (gridData Monthly sample_months)"
  let ?W = "projr (gridData Weekly sample_weeks)"
  let ?e = "ev (2024, 1, 1) ''login'' Fail"
  let ?f = "ev (2024, 3, 1) ''login'' Fail"
  let ?h = "ev (2024, 1, 16) ''login'' Fail"
  have runD: "gridData Daily sample_days = Inr ?D"
    by (simp only: grid_daily_example sum.sel)
  have runM: "gridData Monthly sample_months = Inr ?M"
    by (simp only: grid_monthly_example sum.sel)
  have runW: "gridData Weekly sample_weeks = Inr ?W"
    by (simp only: grid_weekly_example sum.sel)
  have memD: "?D ! 0 \<in> set ?D"
    by (simp add: grid_daily_example)
  have memM: "?M ! 1 \<in> set ?M"
    by (simp add: grid_monthly_example)
  have memW: "?W ! 2 \<in> set ?W"
    by (simp add: grid_weekly_example)
  have e: "?e \<in> set (events (?D ! 0))"
    by (simp add: grid_daily_example)
  have f: "?f \<in> set (events (?M ! 1))"
    by (simp add: grid_monthly_example)
  have h: "?h \<in> set (events (?W ! 2))"
    by (simp add: grid_weekly_example)
  from C10_cell_events [OF runD memD] e
  have d1: "count (?D ! 0) = length (events (?D ! 0))"
    and d2: "activityType ?e = cellActivityType (?D ! 0)"
    and d3: "cellPeriod (?D ! 0) = YMD (date ?e)"
    by blast+
  from C10_cell_events [OF runM memM] f
  have m1: "cellPeriod (?M ! 1) = YM (month_key (date ?f))"
    by blast
  from C10_cell_events [OF runW memW] h
  have w1: "\<exists>weeks week eventDate.
      heatmapWeeks sample_weeks = Inr weeks \<and> week \<in> set weeks \<and>
      cellPeriod (?W ! 2) = YMD (format_ymd week) \<and>
      parseISO (Some (date ?h)) = Some eventDate \<and>
      startOfWeek week \<le> eventDate \<and> eventDate \<le> endOfWeek week"
    by blast
  from d1 e d2 d3 f m1 h w1 show ?thesis
    by (intro conjI)
qed

end
